theory Spec2Isabelle
  imports Main
begin

section \<open>Python values\<close>

text \<open>
  A Python \<^verbatim>\<open>str\<close> is a sequence of Unicode code points, so a string is a list of
  natural numbers here; \<open>py\<close> embeds an ASCII literal.
\<close>

type_synonym pystr = "nat list"

definition py :: "string \<Rightarrow> pystr" where
  "py s = map of_char s"

text \<open>
  The characters that \<^verbatim>\<open>str.isspace\<close>, \<^verbatim>\<open>str.strip()\<close>, \<^verbatim>\<open>str.split()\<close> and the
  regular expression class \<^verbatim>\<open>\s\<close> (on \<^verbatim>\<open>str\<close> patterns) treat as whitespace.
\<close>

definition is_space :: "nat \<Rightarrow> bool" where
  "is_space c \<longleftrightarrow>
     (9 \<le> c \<and> c \<le> 13) \<or> (28 \<le> c \<and> c \<le> 32) \<or> c = 133 \<or> c = 160 \<or> c = 5760 \<or>
     (8192 \<le> c \<and> c \<le> 8202) \<or> c = 8232 \<or> c = 8233 \<or> c = 8239 \<or> c = 8287 \<or> c = 12288"

text \<open>\<^verbatim>\<open>sep.join(xs)\<close> on a list of strings.\<close>

fun join :: "pystr \<Rightarrow> pystr list \<Rightarrow> pystr" where
  "join sep [] = []"
| "join sep [x] = x"
| "join sep (x # y # ys) = x @ sep @ join sep (y # ys)"

text \<open>\<^verbatim>\<open>re.sub(r"\s+", " ", text)\<close>: every maximal run of whitespace becomes one space.\<close>

function collapse_ws :: "pystr \<Rightarrow> pystr" where
  "collapse_ws [] = []"
| "collapse_ws (c # cs) =
     (if is_space c then 32 # collapse_ws (dropWhile is_space cs) else c # collapse_ws cs)"
  by pat_completeness auto
termination
  by (relation "measure length") (auto simp: le_imp_less_Suc length_dropWhile_le)

text \<open>\<^verbatim>\<open>text.strip()\<close>: whitespace removed at both ends.\<close>

definition strip :: "pystr \<Rightarrow> pystr" where
  "strip s = rev (dropWhile is_space (rev (dropWhile is_space s)))"

text \<open>\<^verbatim>\<open>text.split()\<close>: the maximal runs of non-whitespace, in order.\<close>

function split_ws :: "pystr \<Rightarrow> pystr list" where
  "split_ws s =
     (case dropWhile is_space s of
        [] \<Rightarrow> []
      | c # cs \<Rightarrow> (c # takeWhile (\<lambda>x. \<not> is_space x) cs)
                 # split_ws (dropWhile (\<lambda>x. \<not> is_space x) cs))"
  by pat_completeness auto
termination
proof (relation "measure length")
  show "wf (measure length)" by simp
next
  fix s :: pystr and c cs
  assume "dropWhile is_space s = c # cs"
  then have "length (c # cs) \<le> length s"
    using length_dropWhile_le [of is_space s] by simp
  moreover have "length (dropWhile (\<lambda>x. \<not> is_space x) cs) \<le> length cs"
    by (rule length_dropWhile_le)
  ultimately show "(dropWhile (\<lambda>x. \<not> is_space x) cs, s) \<in> measure length"
    by simp
qed

declare split_ws.simps [simp del]

text \<open>
  The slice \<^verbatim>\<open>xs[i:j]\<close> for integers \<open>i\<close> and \<open>j\<close>: a negative bound counts from
  the end, and both bounds are clamped to the list.
\<close>

definition slice_bound :: "nat \<Rightarrow> int \<Rightarrow> nat" where
  "slice_bound n i = (if i < 0 then nat (max 0 (int n + i)) else min (nat i) n)"

definition py_slice :: "'a list \<Rightarrow> int \<Rightarrow> int \<Rightarrow> 'a list" where
  "py_slice xs i j =
     (let a = slice_bound (length xs) i; b = slice_bound (length xs) j
      in take (b - a) (drop a xs))"

section \<open>preprocess.py\<close>

subsection \<open>\<^verbatim>\<open>clean_text\<close>\<close>

definition clean_text :: "pystr \<Rightarrow> pystr" where
  "clean_text text = (if text = [] then [] else strip (collapse_ws text))"

subsection \<open>\<^verbatim>\<open>chunk_text\<close>\<close>

text \<open>
  The \<^verbatim>\<open>while\<close> loop of \<^verbatim>\<open>chunk_text\<close>, with its two variables \<open>start\<close> and
  \<open>chunks\<close>. Python integers are unbounded, and nothing in the function constrains
  \<open>chunk_size\<close> or \<open>overlap\<close>; a run that never leaves the loop is the value \<open>None\<close>.
\<close>

partial_function (option) chunk_loop ::
  "pystr list \<Rightarrow> int \<Rightarrow> int \<Rightarrow> int \<Rightarrow> pystr list \<Rightarrow> pystr list option" where
  "chunk_loop words chunk_size overlap start chunks =
     (if start < int (length words) then
        (let stop = start + chunk_size;
             chunk_words = py_slice words start stop;
             chunks' = (if chunk_words \<noteq> [] then chunks @ [join (py '' '') chunk_words]
                        else chunks)
         in chunk_loop words chunk_size overlap (start + (chunk_size - overlap)) chunks')
      else Some chunks)"

declare chunk_loop.simps [code]

definition chunk_text :: "pystr list \<Rightarrow> int \<Rightarrow> int \<Rightarrow> pystr list option" where
  "chunk_text words chunk_size overlap = chunk_loop words chunk_size overlap 0 []"

subsection \<open>Parsed JSON\<close>

text \<open>
  The value that \<^verbatim>\<open>json.load\<close> returns. A dictionary is an association list read by
  \<open>map_of\<close>. The program never looks inside a number, so \<open>JNum\<close> stands for any
  JSON number.
\<close>

datatype json =
    JNull
  | JBool bool
  | JNum int
  | JStr pystr
  | JArr "json list"
  | JObj "(pystr \<times> json) list"

text \<open>The exceptions the built-in operations used by the program can raise.\<close>

datatype error = AttributeError | TypeError | KeyError

text \<open>\<^verbatim>\<open>d.get(key, default)\<close>: only a dictionary has the method.\<close>

definition dict_get :: "json \<Rightarrow> pystr \<Rightarrow> json \<Rightarrow> error + json" where
  "dict_get d key dflt =
     (case d of
        JObj kvs \<Rightarrow> (case map_of kvs key of Some v \<Rightarrow> Inr v | None \<Rightarrow> Inr dflt)
      | _ \<Rightarrow> Inl AttributeError)"

text \<open>\<^verbatim>\<open>h[key]\<close> with a string key.\<close>

definition subscript :: "json \<Rightarrow> pystr \<Rightarrow> error + json" where
  "subscript h key =
     (case h of
        JObj kvs \<Rightarrow> (case map_of kvs key of Some v \<Rightarrow> Inr v | None \<Rightarrow> Inl KeyError)
      | _ \<Rightarrow> Inl TypeError)"

text \<open>
  What a \<^verbatim>\<open>for\<close> loop iterates over: the elements of a list, the keys of a
  dictionary, the characters of a string; nothing else is iterable.
\<close>

definition py_iter :: "json \<Rightarrow> error + json list" where
  "py_iter v =
     (case v of
        JArr xs \<Rightarrow> Inr xs
      | JObj kvs \<Rightarrow> Inr (map (\<lambda>kv. JStr (fst kv)) kvs)
      | JStr s \<Rightarrow> Inr (map (\<lambda>c. JStr [c]) s)
      | _ \<Rightarrow> Inl TypeError)"

text \<open>\<^verbatim>\<open>str.join\<close> raises \<^verbatim>\<open>TypeError\<close> on an item that is not a string.\<close>

fun as_strings :: "json list \<Rightarrow> error + pystr list" where
  "as_strings [] = Inr []"
| "as_strings (JStr s # xs) =
     (case as_strings xs of Inl e \<Rightarrow> Inl e | Inr ss \<Rightarrow> Inr (s # ss))"
| "as_strings (_ # xs) = Inl TypeError"

definition join_values :: "pystr \<Rightarrow> json list \<Rightarrow> error + pystr" where
  "join_values sep xs = (case as_strings xs of Inl e \<Rightarrow> Inl e | Inr ss \<Rightarrow> Inr (join sep ss))"

text \<open>Sequencing of steps that may raise: the first exception ends the run.\<close>

definition and_then :: "error + 'a \<Rightarrow> ('a \<Rightarrow> error + 'b) \<Rightarrow> error + 'b" where
  "and_then r f = (case r of Inl e \<Rightarrow> Inl e | Inr v \<Rightarrow> f v)"

text \<open>The generator \<^verbatim>\<open>h["text"] for h in ...\<close>, consumed from left to right.\<close>

fun heading_texts :: "json list \<Rightarrow> error + json list" where
  "heading_texts [] = Inr []"
| "heading_texts (h # hs) =
     and_then (subscript h (py ''text'')) (\<lambda>t.
     and_then (heading_texts hs) (\<lambda>ts. Inr (t # ts)))"

subsection \<open>\<^verbatim>\<open>preprocess_scraped_data\<close>\<close>

record chunk_meta =
  page_url :: json
  chunk_index :: int

record corpus =
  source_url :: json
  processed_at :: pystr
  chunk_size :: int
  overlap :: int
  total_chunks :: int
  chunks :: "pystr list"
  chunk_metadata :: "chunk_meta list"

text \<open>The two accumulators \<^verbatim>\<open>all_chunks\<close> and \<^verbatim>\<open>chunk_metadata\<close>.\<close>

type_synonym acc = "pystr list \<times> chunk_meta list"

text \<open>The title, the joined heading texts and the body of a page, combined and cleaned.\<close>

definition combined_text :: "json \<Rightarrow> error + pystr" where
  "combined_text page =
     and_then (dict_get page (py ''title'') (JStr [])) (\<lambda>title.
     and_then (dict_get page (py ''headings'') (JArr [])) (\<lambda>hs.
     and_then (py_iter hs) (\<lambda>hl.
     and_then (heading_texts hl) (\<lambda>ts.
     and_then (join_values (py '' '') ts) (\<lambda>headings.
     and_then (dict_get page (py ''full_text'') (JStr [])) (\<lambda>body.
     and_then (join_values (py '' '') [title, JStr headings, body]) (\<lambda>joined.
     Inr (clean_text joined))))))))"

text \<open>The inner loop \<^verbatim>\<open>for idx, chunk in enumerate(chunks)\<close>.\<close>

definition emit :: "json \<Rightarrow> pystr list \<Rightarrow> acc \<Rightarrow> acc" where
  "emit url cs a =
     foldl (\<lambda>(all_chunks, metadata) (idx, chunk).
              (all_chunks @ [chunk],
               metadata @ [\<lparr>page_url = url, chunk_index = int idx\<rparr>]))
       a (enumerate 0 cs)"

text \<open>
  The body of the loop over the pages, from the accumulators before a page to the
  accumulators after it; \<open>None\<close> when \<^verbatim>\<open>chunk_text\<close> does not return.
\<close>

definition page_body :: "json \<Rightarrow> int \<Rightarrow> int \<Rightarrow> acc \<Rightarrow> (error + acc) option" where
  "page_body page csize ovl a =
     (case dict_get page (py ''page_url'') JNull of
        Inl e \<Rightarrow> Some (Inl e)
      | Inr url \<Rightarrow>
          (case combined_text page of
             Inl e \<Rightarrow> Some (Inl e)
           | Inr combined \<Rightarrow>
               if length (split_ws combined) < 40 then Some (Inr a)
               else (case chunk_text (split_ws combined) csize ovl of
                       None \<Rightarrow> None
                     | Some cs \<Rightarrow> Some (Inr (emit url cs a)))))"

fun pages_loop :: "json list \<Rightarrow> int \<Rightarrow> int \<Rightarrow> acc \<Rightarrow> (error + acc) option" where
  "pages_loop [] csize ovl a = Some (Inr a)"
| "pages_loop (page # rest) csize ovl a =
     (case page_body page csize ovl a of
        None \<Rightarrow> None
      | Some (Inl e) \<Rightarrow> Some (Inl e)
      | Some (Inr a') \<Rightarrow> pages_loop rest csize ovl a')"

text \<open>\<^verbatim>\<open>data.get("site_pages", {}).get("pages", [])\<close>, as the loop iterates over it.\<close>

definition pages_of :: "json \<Rightarrow> error + json list" where
  "pages_of data =
     and_then (dict_get data (py ''site_pages'') (JObj [])) (\<lambda>site.
     and_then (dict_get site (py ''pages'') (JArr [])) (\<lambda>pages.
     py_iter pages))"

text \<open>
  The clock is an input: \<open>now\<close> is \<^verbatim>\<open>datetime.utcnow().isoformat()\<close>.
\<close>

definition preprocess_scraped_data ::
  "pystr \<Rightarrow> json \<Rightarrow> int \<Rightarrow> int \<Rightarrow> (error + corpus) option" where
  "preprocess_scraped_data now data csize ovl =
     (case pages_of data of
        Inl e \<Rightarrow> Some (Inl e)
      | Inr pages \<Rightarrow>
          (case pages_loop pages csize ovl ([], []) of
             None \<Rightarrow> None
           | Some (Inl e) \<Rightarrow> Some (Inl e)
           | Some (Inr (all_chunks, metadata)) \<Rightarrow>
               (case dict_get data (py ''source_url'') JNull of
                  Inl e \<Rightarrow> Some (Inl e)
                | Inr src \<Rightarrow>
                    Some (Inr \<lparr>source_url = src,
                               processed_at = now @ py ''Z'',
                               chunk_size = csize,
                               overlap = ovl,
                               total_chunks = int (length all_chunks),
                               chunks = all_chunks,
                               chunk_metadata = metadata\<rparr>))))"

section \<open>chatbot.py\<close>

text \<open>
  A retrieved document, as the vector store returns it; \<^verbatim>\<open>run_chatbot\<close> reads only
  its \<^verbatim>\<open>page_content\<close>.
\<close>

record document =
  page_content :: pystr

text \<open>
  The context of one turn of \<^verbatim>\<open>run_chatbot\<close>, from the documents the similarity
  search returned, in its order.
\<close>

definition compose_context :: "document list \<Rightarrow> pystr" where
  "compose_context docs = join [10, 10] (map page_content docs)"

section \<open>Auxiliary notions for the statements\<close>

text \<open>The number of window starts \<open>0, d, 2d, \<dots>\<close> below \<open>n\<close>.\<close>

definition n_chunks :: "nat \<Rightarrow> nat \<Rightarrow> nat" where
  "n_chunks n d = (n + d - 1) div d"

text \<open>\<^verbatim>\<open>s.rstrip()\<close>: the second half of \<open>strip\<close>.\<close>

definition rstrip :: "pystr \<Rightarrow> pystr" where
  "rstrip s = rev (dropWhile is_space (rev s))"

text \<open>
  Example inputs: a page with the title \<^verbatim>\<open>"Pricing"\<close>, no headings and the body
  \<^verbatim>\<open>"word "\<close> repeated \<open>n\<close> times, and scraped data that holds a list of pages
  and nothing else.
\<close>

definition pricing_page :: "json \<Rightarrow> nat \<Rightarrow> json" where
  "pricing_page url n =
     JObj [(py ''page_url'', url),
           (py ''title'', JStr (py ''Pricing'')),
           (py ''headings'', JArr []),
           (py ''full_text'', JStr (concat (replicate n (py ''word ''))))]"

definition site_of :: "json list \<Rightarrow> json" where
  "site_of pages = JObj [(py ''site_pages'', JObj [(py ''pages'', JArr pages)])]"

section \<open>The chunker\<close>

lemma slice_bound_nat: "slice_bound n (int a) = min a n"
  by (simp add: slice_bound_def)

lemma py_slice_window: "py_slice xs (int a) (int a + int S) = take S (drop a xs)"
proof -
  have "int a + int S = int (a + S)" by simp
  then have "py_slice xs (int a) (int a + int S) =
      take (min (a + S) (length xs) - min a (length xs)) (drop (min a (length xs)) xs)"
    unfolding py_slice_def Let_def by (simp only: slice_bound_nat)
  also have "\<dots> = take S (drop a xs)"
    by (cases "a \<le> length xs") (auto simp: min_def)
  finally show ?thesis .
qed

lemma chunk_loop_step:
  assumes "start < int (length ws)" and "py_slice ws start (start + S) \<noteq> []"
  shows "chunk_loop ws S ov start cs =
         chunk_loop ws S ov (start + (S - ov)) (cs @ [join (py '' '') (py_slice ws start (start + S))])"
  using assms by (subst chunk_loop.simps) (simp add: Let_def)

lemma chunk_loop_skip:
  assumes "start < int (length ws)" and "py_slice ws start (start + S) = []"
  shows "chunk_loop ws S ov start cs = chunk_loop ws S ov (start + (S - ov)) cs"
  using assms by (subst chunk_loop.simps) (simp add: Let_def)

lemma chunk_loop_exit:
  assumes "\<not> start < int (length ws)"
  shows "chunk_loop ws S ov start cs = Some cs"
  using assms by (subst chunk_loop.simps) simp

lemma less_n_chunks: "0 < d \<Longrightarrow> k < n_chunks n d \<longleftrightarrow> k * d < n"
proof -
  assume d: "0 < d"
  have "n_chunks n d \<le> k \<longleftrightarrow> n_chunks n d < Suc k" by auto
  also have "\<dots> \<longleftrightarrow> n + d - 1 < Suc k * d"
    unfolding n_chunks_def using d by (simp add: div_less_iff_less_mult)
  also have "\<dots> \<longleftrightarrow> n \<le> k * d" using d by auto
  finally show ?thesis by auto
qed

lemma chunk_loop_valid:
  assumes d: "0 < d" and S: "0 < S"
  shows "chunk_loop ws (int S) (int S - int d) (int (k * d)) cs =
           Some (cs @ map (\<lambda>i. join (py '' '') (take S (drop (i * d) ws))) [k ..< n_chunks (length ws) d])"
proof (induction "length ws - k * d" arbitrary: k cs rule: less_induct)
  case less
  show ?case
  proof (cases "k * d < length ws")
    case True
    then have k: "k < n_chunks (length ws) d" using d by (simp add: less_n_chunks)
    have ne: "py_slice ws (int (k * d)) (int (k * d) + int S) \<noteq> []"
      unfolding py_slice_window using True S by simp
    have lt: "int (k * d) < int (length ws)" using True by (simp only: of_nat_less_iff)
    have step: "int (k * d) + (int S - (int S - int d)) = int (Suc k * d)" by simp
    have dec: "length ws - Suc k * d < length ws - k * d" using True d by simp
    have "chunk_loop ws (int S) (int S - int d) (int (k * d)) cs =
          chunk_loop ws (int S) (int S - int d) (int (Suc k * d))
            (cs @ [join (py '' '') (take S (drop (k * d) ws))])"
      using chunk_loop_step [OF lt ne, of "int S - int d" cs]
      unfolding step py_slice_window .
    also have "\<dots> = Some ((cs @ [join (py '' '') (take S (drop (k * d) ws))]) @
        map (\<lambda>i. join (py '' '') (take S (drop (i * d) ws))) [Suc k ..< n_chunks (length ws) d])"
      by (rule less [OF dec])
    finally show ?thesis using k by (simp add: upt_conv_Cons)
  next
    case False
    then have "\<not> k < n_chunks (length ws) d" using d by (simp add: less_n_chunks)
    moreover have "\<not> int (k * d) < int (length ws)" unfolding of_nat_less_iff by (rule False)
    ultimately show ?thesis by (simp add: chunk_loop_exit)
  qed
qed

lemma window_nth: "take S (drop a ws) = map (\<lambda>k. ws ! k) [a ..< min (a + S) (length ws)]"
  by (rule nth_equalityI) (auto simp: min_def split: if_splits)

lemma chunk_text_valid:
  assumes "0 \<le> ov" and "ov < S"
  shows "chunk_text ws S ov =
           Some (map (\<lambda>i. join (py '' '') (take (nat S) (drop (i * nat (S - ov)) ws)))
                   [0 ..< n_chunks (length ws) (nat (S - ov))])"
proof -
  have d: "0 < nat (S - ov)" and S: "0 < nat S" using assms by simp_all
  have eq: "int (nat S) = S" "S - int (nat (S - ov)) = ov" "int (0 * nat (S - ov)) = 0"
    using assms by simp_all
  have "chunk_loop ws S ov 0 [] =
          Some ([] @ map (\<lambda>i. join (py '' '') (take (nat S) (drop (i * nat (S - ov)) ws)))
                   [0 ..< n_chunks (length ws) (nat (S - ov))])"
    using chunk_loop_valid [OF d S, of ws 0 "[]"] by (simp only: eq)
  then show ?thesis
    unfolding chunk_text_def by simp
qed

text \<open>
  Claim C1 says that chunk \<open>i\<close> is the words in the index range from \<open>i * (S - O)\<close> up
  to \<open>i * (S - O) + S\<close>, clamped to the input for the final chunk. The slice
  \<^verbatim>\<open>words[start:end]\<close> is clamped in every iteration: five words with \<open>S = 4\<close> and
  \<open>O = 2\<close> give three chunks, and the second one, which is not the final one, has the
  range from 2 up to 6 and holds only the three words that the input has there.
\<close>

theorem chunk_text_windows_counterexample:
  "(0::int) \<le> 2 \<and> (2::int) < 4 \<and>
   chunk_text [py ''a'', py ''b'', py ''c'', py ''d'', py ''e''] 4 2 =
     Some [py ''a b c d'', py ''c d e'', py ''e''] \<and>
   Suc 1 < length [py ''a b c d'', py ''c d e'', py ''e''] \<and>
   length [py ''a'', py ''b'', py ''c'', py ''d'', py ''e''] < 1 * nat (4 - 2) + nat 4 \<and>
   [py ''a b c d'', py ''c d e'', py ''e''] ! 1 = join (py '' '') [py ''c'', py ''d'', py ''e''] \<and>
   length [py ''c'', py ''d'', py ''e''] < nat 4"
  by (simp add: chunk_text_def chunk_loop_step chunk_loop_exit py_slice_def slice_bound_def
        py_def)

text \<open>
  Claim C1, amended. For parameters with \<open>0 \<le> O < S\<close> and stride \<open>d = S - O\<close>, the
  chunker returns a list of chunks in which chunk \<open>i\<close> starts at word \<open>i * d\<close>, a
  position inside the input, and is the words at the indices from \<open>i * d\<close> up to
  \<open>i * d + S\<close>, clamped to the length of the input for every chunk whose range
  overruns it (not only the final one), joined with single spaces. Consecutive chunks
  therefore start \<open>d\<close> words apart; the chunk after the last one would start at or
  beyond the end of the input; and every word index lies in the range of some chunk.
\<close>

theorem chunk_text_windows:
  assumes "0 \<le> ov" and "ov < S"
  shows "\<exists>cs. chunk_text ws S ov = Some cs \<and>
           (\<forall>i<length cs. i * nat (S - ov) < length ws \<and>
              cs ! i = join (py '' '')
                (map (\<lambda>k. ws ! k)
                   [i * nat (S - ov) ..< min (i * nat (S - ov) + nat S) (length ws)])) \<and>
           length ws \<le> length cs * nat (S - ov) \<and>
           (\<forall>k<length ws. \<exists>i<length cs. i * nat (S - ov) \<le> k \<and> k < i * nat (S - ov) + nat S)"
proof -
  define d where "d = nat (S - ov)"
  define n where "n = n_chunks (length ws) d"
  define cs where "cs = map (\<lambda>i. join (py '' '') (take (nat S) (drop (i * d) ws))) [0 ..< n]"
  have d: "0 < d" and dS: "d \<le> nat S" using assms by (simp_all add: d_def)
  have run: "chunk_text ws S ov = Some cs"
    unfolding cs_def n_def d_def by (rule chunk_text_valid [OF assms])
  have len: "length cs = n" by (simp add: cs_def)
  have a: "i * d < length ws \<and>
           cs ! i = join (py '' '') (map (\<lambda>k. ws ! k) [i * d ..< min (i * d + nat S) (length ws)])"
    if "i < length cs" for i
  proof -
    from that have "i < n" by (simp add: len)
    then have "i * d < length ws" using d by (simp add: n_def less_n_chunks)
    moreover have "cs ! i = join (py '' '') (take (nat S) (drop (i * d) ws))"
      using \<open>i < n\<close> by (simp add: cs_def)
    ultimately show ?thesis by (simp only: window_nth) 
  qed
  have b: "length ws \<le> length cs * d"
  proof -
    have "\<not> n * d < length ws"
      using less_n_chunks [OF d, of n "length ws"] by (simp add: n_def)
    then show ?thesis by (simp add: len)
  qed
  have c: "\<exists>i<length cs. i * d \<le> k \<and> k < i * d + nat S" if "k < length ws" for k
  proof -
    have le: "(k div d) * d \<le> k" by simp
    then have "(k div d) * d < length ws" using that by linarith
    then have "k div d < length cs" using d by (simp add: len n_def less_n_chunks)
    moreover have "k < (k div d) * d + d"
      using d by (metis add.commute div_mult_mod_eq add_less_cancel_left mod_less_divisor mult.commute)
    then have "k < (k div d) * d + nat S" using dS by linarith
    ultimately show ?thesis using le by blast
  qed
  show ?thesis using run a b c unfolding d_def by blast
qed

theorem chunk_text_windows_witness:
  "(0::int) \<le> 1 \<and> (1::int) < 3 \<and>
   chunk_text [py ''a'', py ''b'', py ''c'', py ''d'', py ''e''] 3 1 =
     Some [py ''a b c'', py ''c d e'', py ''e''] \<and>
   length [py ''a'', py ''b'', py ''c'', py ''d'', py ''e''] \<le>
     length [py ''a b c'', py ''c d e'', py ''e''] * nat (3 - 1) \<and>
   (\<exists>i<length [py ''a b c'', py ''c d e'', py ''e''].
      i * nat (3 - 1) \<le> 4 \<and> 4 < i * nat (3 - 1) + nat 3)"
proof -
  let ?W = "[py ''a'', py ''b'', py ''c'', py ''d'', py ''e'']"
  let ?C = "[py ''a b c'', py ''c d e'', py ''e'']"
  have h1: "(0::int) \<le> 1" and h2: "(1::int) < 3" by simp_all
  have run: "chunk_text ?W 3 1 = Some ?C"
    by (simp add: chunk_text_def chunk_loop_step chunk_loop_exit py_slice_def slice_bound_def
          py_def)
  from chunk_text_windows [OF h1 h2, of ?W] obtain cs where
    cs: "chunk_text ?W 3 1 = Some cs" and
    stop: "length ?W \<le> length cs * nat (3 - 1)" and
    cov: "\<forall>k<length ?W. \<exists>i<length cs. i * nat (3 - 1) \<le> k \<and> k < i * nat (3 - 1) + nat 3"
    by blast
  from cs run have eq: "cs = ?C" by simp
  have "4 < length ?W" by simp
  with cov have last: "\<exists>i<length cs. i * nat (3 - 1) \<le> 4 \<and> 4 < i * nat (3 - 1) + nat 3"
    by blast
  from h1 h2 run stop last show ?thesis unfolding eq by (intro conjI)
qed

text \<open>
  Claim C10. For every word sequence and all parameters with \<open>0 \<le> O < S\<close>, the
  loop of the chunker is left after finitely many iterations: the chunker returns.
\<close>

theorem chunk_text_terminates:
  assumes "0 \<le> ov" and "ov < S"
  shows "\<exists>cs. chunk_text ws S ov = Some cs"
  by (simp add: chunk_text_valid [OF assms])

theorem chunk_text_terminates_witness:
  "(0::int) \<le> 40 \<and> (40::int) < 250 \<and> (\<exists>cs. chunk_text [py ''a'', py ''b''] 250 40 = Some cs)"
  using chunk_text_terminates [of 40 250 "[py ''a'', py ''b'']"] by simp

lemma chunk_loop_diverges:
  assumes "S \<le> ov" and "ws \<noteq> []" and "start \<le> 0"
  shows "chunk_loop ws S ov start cs = None"
proof -
  have "\<not> (S \<le> ov \<and> ws \<noteq> [] \<and> start \<le> 0)" if "chunk_loop ws S ov start cs = Some y" for y
  proof (rule chunk_loop.raw_induct
          [where P = "\<lambda>ws S ov start cs y. \<not> (S \<le> ov \<and> ws \<noteq> [] \<and> start \<le> 0)", OF _ that])
    fix f :: "pystr list \<Rightarrow> int \<Rightarrow> int \<Rightarrow> int \<Rightarrow> pystr list \<Rightarrow> pystr list option"
    fix ws S ov start cs y
    assume IH: "\<And>ws S ov start cs y. f ws S ov start cs = Some y \<Longrightarrow>
                  \<not> (S \<le> ov \<and> ws \<noteq> [] \<and> start \<le> 0)"
    assume body: "(if start < int (length ws)
        then let stop = start + S; chunk_words = py_slice ws start stop
             in Let (if chunk_words \<noteq> [] then cs @ [join (py '' '') chunk_words] else cs)
                  (f ws S ov (start + (S - ov)))
        else Some cs) = Some y"
    show "\<not> (S \<le> ov \<and> ws \<noteq> [] \<and> start \<le> 0)"
    proof
      assume inv: "S \<le> ov \<and> ws \<noteq> [] \<and> start \<le> 0"
      then have lt: "start < int (length ws)" by (cases ws) auto
      from body lt obtain cs' where "f ws S ov (start + (S - ov)) cs' = Some y"
        by (auto simp: Let_def split: if_splits)
      from IH [OF this] inv show False by auto
    qed
  qed
  with assms show ?thesis by (cases "chunk_loop ws S ov start cs") auto
qed

lemma chunk_loop_empty_windows: "chunk_loop ws 0 (- 1) (int k) cs = Some cs"
proof (induction "length ws - k" arbitrary: k rule: less_induct)
  case less
  show ?case
  proof (cases "k < length ws")
    case True
    have lt: "int k < int (length ws)" unfolding of_nat_less_iff by (rule True)
    have "py_slice ws (int k) (int k + int 0) = []" unfolding py_slice_window by simp
    then have e: "py_slice ws (int k) (int k + 0) = []" by simp
    have dec: "length ws - Suc k < length ws - k" using True by simp
    have "chunk_loop ws 0 (- 1) (int k) cs = chunk_loop ws 0 (- 1) (int k + (0 - (- 1))) cs"
      by (rule chunk_loop_skip [OF lt e])
    also have "int k + (0 - (- 1)) = int (Suc k)" by simp
    also have "chunk_loop ws 0 (- 1) (int (Suc k)) cs = Some cs" by (rule less [OF dec])
    finally show ?thesis .
  next
    case False
    then have "\<not> int k < int (length ws)" unfolding of_nat_less_iff .
    then show ?thesis by (rule chunk_loop_exit)
  qed
qed

lemma chunk_text_empty_windows: "chunk_text ws 0 (- 1) = Some []"
  unfolding chunk_text_def using chunk_loop_empty_windows [of ws 0 "[]"] by simp

text \<open>
  Claim C2 says that an overlap \<open>O \<ge> S\<close> makes the chunker fail with a configuration
  error. \<^verbatim>\<open>chunk_text\<close> has no check of its parameters and no \<^verbatim>\<open>raise\<close>: with
  \<open>S = O = 5\<close> it returns the empty list on the empty input, and on a one-word input
  it never leaves its loop.
\<close>

theorem chunk_text_invalid_overlap_counterexample:
  "chunk_text [] 5 5 = Some [] \<and> chunk_text [py ''a''] 5 5 = None"
  by (simp add: chunk_text_def chunk_loop_exit chunk_loop_diverges)

text \<open>
  Claim C2, amended. For every input with overlap \<open>O \<ge> S\<close> the chunker raises no
  error: on the empty word sequence it returns the empty list of chunks, and on every
  other word sequence it does not return.
\<close>

theorem chunk_text_invalid_overlap:
  assumes "S \<le> ov"
  shows "chunk_text ws S ov = (if ws = [] then Some [] else None)"
  using assms by (simp add: chunk_text_def chunk_loop_diverges chunk_loop_exit)

theorem chunk_text_invalid_overlap_witness:
  "(250::int) \<le> 250 \<and> chunk_text [py ''a'', py ''b''] 250 250 = None \<and>
   chunk_text [] 250 250 = Some []"
  using chunk_text_invalid_overlap [of 250 250 "[py ''a'', py ''b'']"]
    chunk_text_invalid_overlap [of 250 250 "[]"]
  by simp

text \<open>
  Claim C3 says that a non-empty input shorter than \<open>S\<close> gives exactly one chunk.
  Three words with \<open>S = 4\<close> and \<open>O = 3\<close> give three chunks: the stride is one
  word, and the loop goes on until the start reaches the end of the input.
\<close>

theorem chunk_text_short_input_counterexample:
  "(0::int) \<le> 3 \<and> (3::int) < 4 \<and> int (length [py ''a'', py ''b'', py ''c'']) < 4 \<and>
   chunk_text [py ''a'', py ''b'', py ''c''] 4 3 = Some [py ''a b c'', py ''b c'', py ''c'']"
  by (simp add: chunk_text_def chunk_loop_step chunk_loop_exit py_slice_def slice_bound_def py_def)

text \<open>
  Claim C3, amended. For a non-empty word sequence of length \<open>N < S\<close> and
  \<open>0 \<le> O < S\<close>, the first chunk is the whole input joined with single spaces, and
  it is the only chunk exactly when \<open>N \<le> S - O\<close>.
\<close>

theorem chunk_text_short_input:
  assumes "0 \<le> ov" and "ov < S" and "ws \<noteq> []" and "int (length ws) < S"
  shows "\<exists>rest. chunk_text ws S ov = Some (join (py '' '') ws # rest) \<and>
           (rest = [] \<longleftrightarrow> int (length ws) \<le> S - ov)"
proof -
  define d where "d = nat (S - ov)"
  define n where "n = n_chunks (length ws) d"
  define f where "f = (\<lambda>i. join (py '' '') (take (nat S) (drop (i * d) ws)))"
  have d: "0 < d" using assms by (simp add: d_def)
  have run: "chunk_text ws S ov = Some (map f [0 ..< n])"
    unfolding f_def n_def d_def by (rule chunk_text_valid [OF assms(1,2)])
  have "0 * d < length ws" using assms(3) by simp
  then have n0: "0 < n" using less_n_chunks [OF d, of 0 "length ws"] by (simp add: n_def)
  have f0: "f 0 = join (py '' '') ws" using assms(4) by (simp add: f_def)
  have split: "map f [0 ..< n] = f 0 # map f [Suc 0 ..< n]"
    using n0 by (simp add: upt_conv_Cons)
  have "map f [Suc 0 ..< n] = [] \<longleftrightarrow> \<not> Suc 0 < n" by auto
  also have "\<dots> \<longleftrightarrow> length ws \<le> d"
    using less_n_chunks [OF d, of "Suc 0" "length ws"] by (auto simp: n_def)
  also have "\<dots> \<longleftrightarrow> int (length ws) \<le> S - ov"
    using assms unfolding d_def by linarith
  finally show ?thesis using run split f0 by simp
qed

theorem chunk_text_short_input_witness:
  "(0::int) \<le> 1 \<and> (1::int) < 5 \<and> [py ''a'', py ''b'', py ''c''] \<noteq> [] \<and>
   int (length [py ''a'', py ''b'', py ''c'']) < 5 \<and>
   chunk_text [py ''a'', py ''b'', py ''c''] 5 1 = Some [py ''a b c'']"
proof -
  let ?W = "[py ''a'', py ''b'', py ''c'']"
  have h: "(0::int) \<le> 1" "(1::int) < 5" "?W \<noteq> []" "int (length ?W) < 5" by simp_all
  from chunk_text_short_input [OF h] obtain rest where
    run: "chunk_text ?W 5 1 = Some (join (py '' '') ?W # rest)" and
    one: "rest = [] \<longleftrightarrow> int (length ?W) \<le> 5 - 1"
    by blast
  from one have "rest = []" by simp
  with run have "chunk_text ?W 5 1 = Some [py ''a b c'']" by (simp add: py_def)
  then show ?thesis by simp
qed

section \<open>The text normalizer\<close>

lemma is_space_32: "is_space 32"
  by (simp add: is_space_def)

lemma collapse_ws_head:
  "xs \<noteq> [] \<Longrightarrow> \<not> is_space (hd xs) \<Longrightarrow> collapse_ws xs \<noteq> [] \<and> hd (collapse_ws xs) = hd xs"
  by (cases xs) auto

lemma collapse_ws_spaces: "c \<in> set (collapse_ws s) \<Longrightarrow> is_space c \<Longrightarrow> c = 32"
  by (induction s rule: collapse_ws.induct) (auto split: if_splits)

lemma collapse_ws_no_runs:
  "successively (\<lambda>a b. \<not> (is_space a \<and> is_space b)) (collapse_ws s)"
proof (induction s rule: collapse_ws.induct)
  case 1
  show ?case by simp
next
  case (2 c cs)
  show ?case
  proof (cases "is_space c")
    case True
    let ?r = "dropWhile is_space cs"
    have IH: "successively (\<lambda>a b. \<not> (is_space a \<and> is_space b)) (collapse_ws ?r)"
      using 2(1) True by simp
    show ?thesis
    proof (cases "?r = []")
      case rnil: True
      have "collapse_ws (c # cs) = [32]"
        using True by (simp only: collapse_ws.simps rnil if_True)
      then show ?thesis by simp
    next
      case False
      then have "\<not> is_space (hd ?r)" by (rule hd_dropWhile)
      with False have "collapse_ws ?r \<noteq> [] \<and> \<not> is_space (hd (collapse_ws ?r))"
        using collapse_ws_head [of ?r] by simp
      with IH True show ?thesis
        by (cases "collapse_ws ?r") (auto simp: successively_Cons)
    qed
  next
    case False
    with 2(2) show ?thesis by (auto simp: successively_Cons)
  qed
qed

lemma collapse_ws_fixed:
  assumes "\<forall>c\<in>set t. is_space c \<longrightarrow> c = 32"
    and "successively (\<lambda>a b. \<not> (is_space a \<and> is_space b)) t"
  shows "collapse_ws t = t"
  using assms
proof (induction t rule: collapse_ws.induct)
  case 1
  show ?case by simp
next
  case (2 c cs)
  from 2(4) have tl: "successively (\<lambda>a b. \<not> (is_space a \<and> is_space b)) cs"
    by (auto simp: successively_Cons)
  from 2(3) have sp: "\<forall>c\<in>set cs. is_space c \<longrightarrow> c = 32" by simp
  show ?case
  proof (cases "is_space c")
    case True
    then have c: "c = 32" using 2(3) by simp
    have "cs = [] \<or> \<not> is_space (hd cs)"
      using 2(4) True by (cases cs) (auto simp: successively_Cons)
    then have d: "dropWhile is_space cs = cs" by (simp add: dropWhile_eq_self_iff)
    have "collapse_ws (dropWhile is_space cs) = dropWhile is_space cs"
      using 2(1) [OF True] sp tl unfolding d by simp
    with True c d show ?thesis by simp
  next
    case False
    with 2(2) sp tl show ?thesis by simp
  qed
qed

lemma strip_infix: "\<exists>pre post. s = pre @ strip s @ post"
proof -
  let ?z = "dropWhile is_space s"
  have "s = takeWhile is_space s @ ?z" by simp
  moreover have "rev ?z = takeWhile is_space (rev ?z) @ dropWhile is_space (rev ?z)" by simp
  then have "?z = strip s @ rev (takeWhile is_space (rev ?z))"
    unfolding strip_def by (metis rev_append rev_rev_ident)
  ultimately have "s = takeWhile is_space s @ strip s @ rev (takeWhile is_space (rev ?z))"
    by simp
  then show ?thesis by blast
qed

lemma strip_idem: "strip (strip s) = strip s"
proof -
  let ?z = "dropWhile is_space s"
  let ?y = "dropWhile is_space (rev ?z)"
  have y: "strip s = rev ?y" by (simp add: strip_def)
  have "dropWhile is_space (rev ?y) = rev ?y"
  proof (cases "rev ?y = []")
    case True
    then show ?thesis by (simp only: dropWhile.simps)
  next
    case False
    have "?z = rev ?y @ rev (takeWhile is_space (rev ?z))"
      by (metis rev_append rev_rev_ident takeWhile_dropWhile_id)
    with False have hd: "hd (rev ?y) = hd ?z" by (metis hd_append2)
    from False have "?z \<noteq> []" by (metis dropWhile.simps(1) rev.simps(1))
    then have "\<not> is_space (hd ?z)" by (rule hd_dropWhile)
    with hd show ?thesis by (simp add: dropWhile_eq_self_iff)
  qed
  then show ?thesis unfolding y by (simp add: strip_def)
qed

text \<open>
  Claim C8. Cleaning a cleaned string changes nothing: for every string \<open>s\<close>,
  \<^verbatim>\<open>clean_text(clean_text(s)) == clean_text(s)\<close>.
\<close>

theorem clean_text_idempotent: "clean_text (clean_text s) = clean_text s"
proof (cases "s = [] \<or> strip (collapse_ws s) = []")
  case True
  then show ?thesis by (auto simp: clean_text_def)
next
  case False
  let ?t = "collapse_ws s"
  obtain pre post where t: "?t = pre @ strip ?t @ post" using strip_infix by blast
  have "\<forall>c\<in>set ?t. is_space c \<longrightarrow> c = 32" using collapse_ws_spaces by blast
  then have a: "\<forall>c\<in>set (strip ?t). is_space c \<longrightarrow> c = 32"
    by (subst (asm) t) auto
  have "successively (\<lambda>a b. \<not> (is_space a \<and> is_space b)) ?t" by (rule collapse_ws_no_runs)
  then have b: "successively (\<lambda>a b. \<not> (is_space a \<and> is_space b)) (strip ?t)"
    by (subst (asm) t) (auto simp: successively_append_iff)
  have "collapse_ws (strip ?t) = strip ?t" by (rule collapse_ws_fixed [OF a b])
  then have "strip (collapse_ws (strip ?t)) = strip ?t" by (simp add: strip_idem)
  with False show ?thesis by (simp add: clean_text_def)
qed

theorem clean_text_idempotent_witness:
  "clean_text (clean_text [32, 9, 97, 10, 10, 98, 32]) = clean_text [32, 9, 97, 10, 10, 98, 32] \<and>
   clean_text [32, 9, 97, 10, 10, 98, 32] = py ''a b''"
  using clean_text_idempotent [of "[32, 9, 97, 10, 10, 98, 32]"]
  by (simp add: clean_text_def strip_def is_space_def py_def)

subsection \<open>A cleaned text is its words joined by single spaces\<close>

lemma strip_rstrip: "strip s = rstrip (dropWhile is_space s)"
  by (simp add: strip_def rstrip_def)

lemma split_ws_Nil: "dropWhile is_space s = [] \<Longrightarrow> split_ws s = []"
  by (subst split_ws.simps) (simp only: list.case)

lemma split_ws_Cons:
  "dropWhile is_space s = c # cs \<Longrightarrow>
   split_ws s = (c # takeWhile (\<lambda>x. \<not> is_space x) cs) # split_ws (dropWhile (\<lambda>x. \<not> is_space x) cs)"
  by (subst split_ws.simps) (simp only: list.case)

lemma split_ws_dropWhile: "split_ws (dropWhile is_space s) = split_ws s"
  by (subst split_ws.simps, subst (2) split_ws.simps) simp

lemma split_ws_space: "is_space a \<Longrightarrow> split_ws (a # s) = split_ws s"
  using split_ws_dropWhile [of "a # s"] split_ws_dropWhile [of s] by simp

lemma split_ws_word:
  assumes "w \<noteq> []" and "\<forall>x\<in>set w. \<not> is_space x" and "r = [] \<or> is_space (hd r)"
  shows "split_ws (w @ r) = w # split_ws r"
proof -
  obtain c w' where w: "w = c # w'" using assms(1) by (cases w) auto
  have c: "\<not> is_space c" and w': "\<forall>x\<in>set w'. \<not> is_space x" using assms(2) w by auto
  have d: "dropWhile is_space (w @ r) = c # (w' @ r)" using c w by simp
  have t: "takeWhile (\<lambda>x. \<not> is_space x) (w' @ r) = w'"
    using w' assms(3) by (cases r) (auto simp: takeWhile_append)
  have e: "dropWhile (\<lambda>x. \<not> is_space x) (w' @ r) = r"
    using w' assms(3) by (cases r) (auto simp: dropWhile_append)
  show ?thesis using split_ws_Cons [OF d] unfolding t e w by simp
qed

lemma split_ws_words:
  "w \<in> set (split_ws s) \<Longrightarrow> w \<noteq> [] \<and> (\<forall>x\<in>set w. \<not> is_space x)"
proof (induction s rule: split_ws.induct)
  case (1 s)
  show ?case
  proof (cases "dropWhile is_space s")
    case Nil
    with 1(2) show ?thesis by (simp add: split_ws_Nil)
  next
    case (Cons c cs)
    have "dropWhile is_space s \<noteq> []" using Cons by simp
    then have "\<not> is_space (hd (dropWhile is_space s))" by (rule hd_dropWhile)
    then have c: "\<not> is_space c" using Cons by simp
    from 1(2) have "w = c # takeWhile (\<lambda>x. \<not> is_space x) cs \<or>
        w \<in> set (split_ws (dropWhile (\<lambda>x. \<not> is_space x) cs))"
      by (simp add: split_ws_Cons [OF Cons])
    then show ?thesis
    proof
      assume "w = c # takeWhile (\<lambda>x. \<not> is_space x) cs"
      then show ?thesis using c by (auto dest: set_takeWhileD)
    next
      assume "w \<in> set (split_ws (dropWhile (\<lambda>x. \<not> is_space x) cs))"
      then show ?thesis by (rule 1(1) [OF Cons])
    qed
  qed
qed

lemma split_ws_join:
  assumes "\<forall>w\<in>set ws. w \<noteq> [] \<and> (\<forall>x\<in>set w. \<not> is_space x)"
  shows "split_ws (join [32] ws) = ws"
  using assms
proof (induction "[32::nat]" ws rule: join.induct)
  case 1
  show ?case by (simp add: split_ws_Nil)
next
  case (2 x)
  then show ?case using split_ws_word [of x "[]"] by (simp add: split_ws_Nil)
next
  case (3 x y ys)
  have "split_ws (x @ 32 # join [32] (y # ys)) = x # split_ws (32 # join [32] (y # ys))"
    using 3(2) by (intro split_ws_word) (simp_all add: is_space_32)
  also have "split_ws (32 # join [32] (y # ys)) = split_ws (join [32] (y # ys))"
    by (simp add: split_ws_space is_space_32)
  also have "\<dots> = y # ys" using 3 by simp
  finally show ?case by simp
qed

lemma rstrip_Nil: "rstrip [] = []"
  by (simp add: rstrip_def)

lemma rstrip_spaces: "\<forall>x\<in>set s. is_space x \<Longrightarrow> rstrip s = []"
  by (simp add: rstrip_def)

lemma rstrip_append:
  assumes "\<exists>x\<in>set y. \<not> is_space x"
  shows "rstrip (w @ y) = w @ rstrip y"
  using assms by (auto simp: rstrip_def dropWhile_append)

lemma rstrip_word:
  assumes "w \<noteq> []" and "\<forall>x\<in>set w. \<not> is_space x"
  shows "rstrip (w @ y) = w @ rstrip y"
proof (cases "\<exists>x\<in>set y. \<not> is_space x")
  case True
  then show ?thesis by (rule rstrip_append)
next
  case False
  then have y: "\<forall>x\<in>set y. is_space x" by simp
  have "dropWhile is_space (rev w) = rev w"
    using assms by (cases "rev w") (auto simp: dropWhile_eq_self_iff)
  then have "rstrip (w @ y) = w" using y by (simp add: rstrip_def dropWhile_append)
  then show ?thesis using y by (simp add: rstrip_spaces)
qed

lemma collapse_ws_word:
  "\<forall>x\<in>set w. \<not> is_space x \<Longrightarrow> collapse_ws (w @ r) = w @ collapse_ws r"
  by (induction w) simp_all

lemma collapse_ws_lead:
  "strip (collapse_ws s) = strip (collapse_ws (dropWhile is_space s))"
proof (cases s)
  case Nil
  then show ?thesis by simp
next
  case (Cons a s')
  show ?thesis
  proof (cases "is_space a")
    case True
    then have "collapse_ws s = 32 # collapse_ws (dropWhile is_space s)" using Cons by simp
    then show ?thesis by (simp add: strip_def is_space_32)
  next
    case False
    then show ?thesis using Cons by simp
  qed
qed

lemma collapse_ws_tail:
  assumes "r = [] \<or> is_space (hd r)"
  shows "rstrip (collapse_ws r) =
           (if split_ws r = [] then [] else 32 # strip (collapse_ws r))"
proof (cases r)
  case Nil
  then show ?thesis by (simp add: rstrip_Nil split_ws_Nil)
next
  case (Cons a r')
  then have a: "is_space a" using assms by simp
  let ?z = "dropWhile is_space r'"
  have z: "dropWhile is_space r = ?z" using Cons a by simp
  have col: "collapse_ws r = 32 # collapse_ws ?z" using Cons a by simp
  show ?thesis
  proof (cases ?z)
    case Nil
    then have "split_ws r = []" using z by (simp only: split_ws_Nil)
    moreover have "rstrip (collapse_ws r) = []"
      unfolding col Nil by (simp add: rstrip_def is_space_32)
    ultimately show ?thesis by simp
  next
    case zc: (Cons c cs)
    have "?z \<noteq> []" using zc by simp
    then have "\<not> is_space (hd ?z)" by (rule hd_dropWhile)
    then have c: "\<not> is_space c" using zc by simp
    have y: "collapse_ws ?z = c # collapse_ws cs" unfolding zc using c by simp
    have ne: "split_ws r \<noteq> []" using split_ws_Cons [of r c cs] z zc by simp
    have "rstrip (collapse_ws r) = [32] @ rstrip (collapse_ws ?z)"
      unfolding col using rstrip_append [of "collapse_ws ?z" "[32]"] y c by simp
    moreover have "strip (collapse_ws r) = strip (collapse_ws ?z)"
      using collapse_ws_lead [of r] z by simp
    moreover have "strip (collapse_ws ?z) = rstrip (collapse_ws ?z)"
      unfolding strip_rstrip y using c by simp
    ultimately show ?thesis using ne by simp
  qed
qed

lemma strip_collapse_ws: "strip (collapse_ws s) = join [32] (split_ws s)"
proof (induction s rule: split_ws.induct)
  case (1 s)
  let ?z = "dropWhile is_space s"
  show ?case
  proof (cases ?z)
    case Nil
    have "strip (collapse_ws s) = strip (collapse_ws ?z)" by (rule collapse_ws_lead)
    then show ?thesis unfolding Nil using Nil by (simp add: split_ws_Nil strip_def)
  next
    case (Cons c cs)
    let ?w = "c # takeWhile (\<lambda>x. \<not> is_space x) cs"
    let ?r = "dropWhile (\<lambda>x. \<not> is_space x) cs"
    have "?z \<noteq> []" using Cons by simp
    then have "\<not> is_space (hd ?z)" by (rule hd_dropWhile)
    then have c: "\<not> is_space c" using Cons by simp
    have w: "\<forall>x\<in>set ?w. \<not> is_space x" using c by (auto dest: set_takeWhileD)
    have zr: "?z = ?w @ ?r" using Cons by simp
    have r: "?r = [] \<or> is_space (hd ?r)"
      using hd_dropWhile [of "\<lambda>x. \<not> is_space x" cs] by auto
    have IH: "strip (collapse_ws ?r) = join [32] (split_ws ?r)" by (rule 1 [OF Cons])
    have "strip (collapse_ws s) = strip (collapse_ws (?w @ ?r))"
      using collapse_ws_lead [of s] zr by simp
    also have "\<dots> = strip (?w @ collapse_ws ?r)"
      by (simp only: collapse_ws_word [OF w])
    also have "\<dots> = rstrip (?w @ collapse_ws ?r)"
      unfolding strip_rstrip using c by simp
    also have "\<dots> = ?w @ rstrip (collapse_ws ?r)"
      using w by (intro rstrip_word) simp_all
    also have "\<dots> = ?w @ (if split_ws ?r = [] then [] else 32 # join [32] (split_ws ?r))"
      using collapse_ws_tail [OF r] IH by simp
    also have "\<dots> = join [32] (?w # split_ws ?r)"
      by (cases "split_ws ?r") simp_all
    also have "\<dots> = join [32] (split_ws s)"
      by (simp only: split_ws_Cons [OF Cons])
    finally show ?thesis .
  qed
qed

lemma clean_text_join: "clean_text s = join [32] (split_ws s)"
  by (cases "s = []") (simp_all add: clean_text_def strip_collapse_ws split_ws_Nil)

lemma split_ws_clean_text: "split_ws (clean_text s) = split_ws s"
  unfolding clean_text_join using split_ws_words by (intro split_ws_join) blast

section \<open>The retrieval composer\<close>

text \<open>
  Claim C7. The context is the page contents of the retrieved documents in the order
  given, each one after the first preceded by a blank line (two newline characters);
  nothing is reordered and nothing is dropped, also when two documents have the same
  content. The ranked chunks \<open>A\<close>, \<open>B\<close>, \<open>C\<close> give \<^verbatim>\<open>"A\n\nB\n\nC"\<close>.
\<close>

theorem compose_context_order:
  "compose_context docs =
     (case docs of
        [] \<Rightarrow> []
      | d # ds \<Rightarrow> page_content d @ concat (map (\<lambda>e. [10, 10] @ page_content e) ds)) \<and>
   compose_context [\<lparr>page_content = py ''A''\<rparr>, \<lparr>page_content = py ''B''\<rparr>,
                    \<lparr>page_content = py ''C''\<rparr>] = py ''A'' @ [10, 10] @ py ''B'' @ [10, 10] @ py ''C'' \<and>
   compose_context [\<lparr>page_content = py ''A''\<rparr>, \<lparr>page_content = py ''A''\<rparr>] =
     py ''A'' @ [10, 10] @ py ''A''"
proof -
  have "join sep (x # xs) = x @ concat (map (\<lambda>y. sep @ y) xs)" for sep x and xs :: "pystr list"
    by (induction xs arbitrary: x) simp_all
  then have "compose_context docs =
     (case docs of
        [] \<Rightarrow> []
      | d # ds \<Rightarrow> page_content d @ concat (map (\<lambda>e. [10, 10] @ page_content e) ds))"
    by (cases docs) (simp_all add: compose_context_def comp_def)
  then show ?thesis by (simp add: compose_context_def)
qed

section \<open>The page aggregator\<close>

lemma emit_from:
  "foldl (\<lambda>(all_chunks, metadata) (idx, chunk).
              (all_chunks @ [chunk],
               metadata @ [\<lparr>page_url = url, chunk_index = int idx\<rparr>]))
       (a, m) (enumerate n cs) =
   (a @ cs, m @ map (\<lambda>i. \<lparr>page_url = url, chunk_index = int i\<rparr>) [n ..< n + length cs])"
proof (induction cs arbitrary: a m n)
  case Nil
  show ?case by simp
next
  case (Cons c cs)
  have "[n ..< n + length (c # cs)] = n # [Suc n ..< Suc n + length cs]"
    using upt_conv_Cons [of n "Suc n + length cs"] by simp
  then show ?case by (simp add: Cons.IH)
qed

lemma emit_eq:
  "emit url cs (a, m) =
     (a @ cs, m @ map (\<lambda>i. \<lparr>page_url = url, chunk_index = int i\<rparr>) [0 ..< length cs])"
  unfolding emit_def using emit_from [of url a m 0 cs] by simp

lemma page_body_Inr:
  assumes "page_body p S ov (a, m) = Some (Inr (a', m'))"
  shows "\<exists>url t cs. dict_get p (py ''page_url'') JNull = Inr url \<and> combined_text p = Inr t \<and>
           (if length (split_ws t) < 40 then Some [] else chunk_text (split_ws t) S ov) = Some cs \<and>
           a' = a @ cs \<and>
           m' = m @ map (\<lambda>i. \<lparr>page_url = url, chunk_index = int i\<rparr>) [0 ..< length cs]"
  using assms unfolding page_body_def
  by (auto simp: emit_eq split: sum.splits option.splits if_splits)

lemma page_body_returns:
  assumes "0 \<le> ov" and "ov < S"
  shows "page_body p S ov acc \<noteq> None"
  using chunk_text_valid [OF assms] unfolding page_body_def
  by (auto split: sum.splits option.splits)

lemma combined_text_dict: "combined_text p = Inr t \<Longrightarrow> \<exists>kvs. p = JObj kvs"
  unfolding combined_text_def and_then_def dict_get_def
  by (cases p) (auto split: sum.splits)

lemma page_body_no_error:
  assumes "0 \<le> ov" and "ov < S" and "combined_text p = Inr t"
  shows "\<exists>acc'. page_body p S ov acc = Some (Inr acc')"
proof -
  obtain kvs where p: "p = JObj kvs" using combined_text_dict [OF assms(3)] by blast
  have "\<exists>url. dict_get p (py ''page_url'') JNull = Inr url"
    unfolding dict_get_def p by (cases "map_of kvs (py ''page_url'')") simp_all
  then obtain url where "dict_get p (py ''page_url'') JNull = Inr url" by blast
  then show ?thesis
    using chunk_text_valid [OF assms(1,2)] assms(3) unfolding page_body_def
    by (auto split: sum.splits option.splits)
qed

lemma pages_loop_returns:
  assumes "0 \<le> ov" and "ov < S"
  shows "pages_loop ps S ov acc \<noteq> None"
proof (induction ps arbitrary: acc)
  case Nil
  show ?case by simp
next
  case (Cons p ps)
  show ?case
    using page_body_returns [OF assms, of p acc] Cons.IH
    by (auto split: option.splits sum.splits)
qed

lemma pages_loop_no_error:
  assumes "0 \<le> ov" and "ov < S" and "\<forall>p\<in>set ps. \<exists>t. combined_text p = Inr t"
  shows "\<exists>acc'. pages_loop ps S ov acc = Some (Inr acc')"
  using assms(3)
proof (induction ps arbitrary: acc)
  case Nil
  show ?case by simp
next
  case (Cons p ps)
  from Cons.prems obtain t where "combined_text p = Inr t" by auto
  from page_body_no_error [OF assms(1,2) this, of acc]
  obtain acc1 where "page_body p S ov acc = Some (Inr acc1)" by blast
  moreover have "\<exists>acc'. pages_loop ps S ov acc1 = Some (Inr acc')"
    using Cons.IH Cons.prems by simp
  ultimately show ?case by simp
qed

lemma pages_loop_groups:
  assumes "pages_loop ps S ov (a, m) = Some (Inr (a', m'))"
  shows "\<exists>gs. list_all2 (\<lambda>p g. \<exists>url t.
                  dict_get p (py ''page_url'') JNull = Inr url \<and> combined_text p = Inr t \<and>
                  (if length (split_ws t) < 40 then Some []
                   else chunk_text (split_ws t) S ov) = Some (fst g) \<and>
                  snd g = map (\<lambda>i. \<lparr>page_url = url, chunk_index = int i\<rparr>)
                            [0 ..< length (fst g)]) ps gs \<and>
              a' = a @ concat (map fst gs) \<and> m' = m @ concat (map snd gs)"
  using assms
proof (induction ps arbitrary: a m)
  case Nil
  then show ?case by simp
next
  case (Cons p ps)
  from Cons.prems obtain a1 m1 where
    body: "page_body p S ov (a, m) = Some (Inr (a1, m1))" and
    rest: "pages_loop ps S ov (a1, m1) = Some (Inr (a', m'))"
    by (auto split: option.splits sum.splits)
  from page_body_Inr [OF body] obtain url t cs where
    g: "dict_get p (py ''page_url'') JNull = Inr url" "combined_text p = Inr t"
       "(if length (split_ws t) < 40 then Some [] else chunk_text (split_ws t) S ov) = Some cs" and
    a1: "a1 = a @ cs" and
    m1: "m1 = m @ map (\<lambda>i. \<lparr>page_url = url, chunk_index = int i\<rparr>) [0 ..< length cs]"
    by blast
  from Cons.IH [OF rest] obtain gs where
    gs: "list_all2 (\<lambda>p g. \<exists>url t.
                  dict_get p (py ''page_url'') JNull = Inr url \<and> combined_text p = Inr t \<and>
                  (if length (split_ws t) < 40 then Some []
                   else chunk_text (split_ws t) S ov) = Some (fst g) \<and>
                  snd g = map (\<lambda>i. \<lparr>page_url = url, chunk_index = int i\<rparr>)
                            [0 ..< length (fst g)]) ps gs" and
    a': "a' = a1 @ concat (map fst gs)" and m': "m' = m1 @ concat (map snd gs)"
    by blast
  let ?g = "(cs, map (\<lambda>i. \<lparr>page_url = url, chunk_index = int i\<rparr>) [0 ..< length cs])"
  have "list_all2 (\<lambda>p g. \<exists>url t.
                  dict_get p (py ''page_url'') JNull = Inr url \<and> combined_text p = Inr t \<and>
                  (if length (split_ws t) < 40 then Some []
                   else chunk_text (split_ws t) S ov) = Some (fst g) \<and>
                  snd g = map (\<lambda>i. \<lparr>page_url = url, chunk_index = int i\<rparr>)
                            [0 ..< length (fst g)]) (p # ps) (?g # gs)"
    using g gs by auto
  moreover have "a' = a @ concat (map fst (?g # gs))" using a' a1 by simp
  moreover have "m' = m @ concat (map snd (?g # gs))" using m' m1 by simp
  ultimately show ?case by blast
qed

lemma py_eq_iff: "py a = py b \<longleftrightarrow> a = b"
  unfolding py_def by (rule inj_map_eq_map) (simp add: inj_on_def)

lemma py_Nil: "py [] = []"
  by (simp add: py_def)

lemma py_Cons: "py (c # cs) = of_char c # py cs"
  by (simp add: py_def)

lemma py_space_free: "\<forall>x\<in>set (py ''word''). \<not> is_space x" "\<forall>x\<in>set (py ''Pricing''). \<not> is_space x"
  by (simp_all add: py_def is_space_def)

lemma split_ws_repeat:
  assumes "w \<noteq> []" and "\<forall>x\<in>set w. \<not> is_space x"
  shows "split_ws (concat (replicate n (w @ [32]))) = replicate n w"
proof (induction n)
  case 0
  show ?case by (simp add: split_ws_Nil)
next
  case (Suc n)
  have "split_ws (w @ 32 # concat (replicate n (w @ [32]))) =
        w # split_ws (32 # concat (replicate n (w @ [32])))"
    using assms by (intro split_ws_word) (simp_all add: is_space_32)
  then show ?case using Suc by (simp add: split_ws_space is_space_32)
qed

lemma pricing_words:
  "split_ws (join [32] [py ''Pricing'', [], concat (replicate n (py ''word ''))]) =
     py ''Pricing'' # replicate n (py ''word'')"
proof -
  have w: "py ''word '' = py ''word'' @ [32]" by (simp add: py_def)
  have "split_ws (py ''Pricing'' @ 32 # 32 # concat (replicate n (py ''word ''))) =
        py ''Pricing'' # split_ws (32 # 32 # concat (replicate n (py ''word '')))"
    using py_space_free(2) by (intro split_ws_word) (simp_all add: is_space_32 py_def)
  also have "split_ws (32 # 32 # concat (replicate n (py ''word ''))) =
             split_ws (concat (replicate n (py ''word'' @ [32])))"
    by (simp add: split_ws_space is_space_32 w)
  also have "\<dots> = replicate n (py ''word'')"
    using py_space_free(1) by (intro split_ws_repeat) (simp_all add: py_def)
  finally show ?thesis by simp
qed

lemma combined_text_pricing:
  "combined_text (pricing_page url n) =
     Inr (join [32] (py ''Pricing'' # replicate n (py ''word'')))"
proof -
  have "combined_text (pricing_page url n) =
          Inr (clean_text (join [32] [py ''Pricing'', [], concat (replicate n (py ''word ''))]))"
    by (simp add: combined_text_def pricing_page_def dict_get_def and_then_def py_iter_def
          join_values_def py_eq_iff py_Nil py_Cons)
  then show ?thesis by (simp only: clean_text_join pricing_words)
qed

lemma pricing_split:
  "split_ws (join [32] (py ''Pricing'' # replicate n (py ''word''))) =
     py ''Pricing'' # replicate n (py ''word'')"
  using py_space_free by (intro split_ws_join) (auto simp: py_def)

lemma pages_of_site: "pages_of (site_of pages) = Inr pages"
  by (simp add: pages_of_def site_of_def dict_get_def and_then_def py_iter_def py_eq_iff)

lemma n_chunks_one:
  assumes "0 < n" and "n \<le> d"
  shows "n_chunks n d = 1"
proof -
  have d: "0 < d" using assms by simp
  have "0 < n_chunks n d" using less_n_chunks [OF d, of 0 n] assms(1) by simp
  moreover have "\<not> 1 < n_chunks n d" using less_n_chunks [OF d, of 1 n] assms(2) by simp
  ultimately show ?thesis by simp
qed

lemma chunk_text_single:
  assumes "0 \<le> ov" and "ov < S" and "ws \<noteq> []" and "int (length ws) \<le> S - ov"
  shows "chunk_text ws S ov = Some [join (py '' '') ws]"
proof -
  have "n_chunks (length ws) (nat (S - ov)) = 1"
    using assms by (intro n_chunks_one) simp_all
  moreover have "take (nat S) ws = ws" using assms by simp
  ultimately show ?thesis by (simp add: chunk_text_valid [OF assms(1,2)])
qed

lemma chunk_text_nonempty:
  assumes "0 \<le> ov" and "ov < S" and "ws \<noteq> []"
  shows "\<exists>c cs. chunk_text ws S ov = Some (c # cs)"
proof -
  have d: "0 < nat (S - ov)" using assms by simp
  have "0 < n_chunks (length ws) (nat (S - ov))"
    using less_n_chunks [OF d, of 0 "length ws"] assms(3) by simp
  then show ?thesis
    by (simp add: chunk_text_valid [OF assms(1,2)] upt_conv_Cons)
qed

text \<open>
  Claim C4. For chunking parameters with \<open>0 \<le> O < S\<close> the aggregator returns on
  every input, with a corpus whenever the page list can be read and every page's
  combined text can be built. Every corpus it returns has as many chunks as metadata
  entries, and that number is \<open>total_chunks\<close>. Moreover the corpus is made of one
  group per page, in page order: the group of a page holds the chunks of its combined
  text (none when the text has fewer than 40 words), and the metadata of the group's
  chunk number \<open>i\<close>, counted from 0, is that page's URL with chunk index \<open>i\<close>.
\<close>

theorem corpus_parallel:
  assumes "0 \<le> ov" and "ov < S"
  shows "preprocess_scraped_data now data S ov \<noteq> None \<and>
         ((\<exists>ps. pages_of data = Inr ps \<and> (\<forall>p\<in>set ps. \<exists>t. combined_text p = Inr t)) \<longrightarrow>
            (\<exists>c. preprocess_scraped_data now data S ov = Some (Inr c))) \<and>
         (\<forall>c. preprocess_scraped_data now data S ov = Some (Inr c) \<longrightarrow>
            length (chunks c) = length (chunk_metadata c) \<and>
            total_chunks c = int (length (chunks c)) \<and>
            (\<exists>ps gs. pages_of data = Inr ps \<and>
               list_all2 (\<lambda>p g. \<exists>url t.
                  dict_get p (py ''page_url'') JNull = Inr url \<and> combined_text p = Inr t \<and>
                  (if length (split_ws t) < 40 then Some []
                   else chunk_text (split_ws t) S ov) = Some (fst g) \<and>
                  snd g = map (\<lambda>i. \<lparr>page_url = url, chunk_index = int i\<rparr>)
                            [0 ..< length (fst g)]) ps gs \<and>
               chunks c = concat (map fst gs) \<and>
               chunk_metadata c = concat (map snd gs)))"
proof (intro conjI allI impI)
  show "preprocess_scraped_data now data S ov \<noteq> None"
  proof (cases "pages_of data")
    case (Inl e)
    then show ?thesis by (simp add: preprocess_scraped_data_def)
  next
    case (Inr ps)
    with pages_loop_returns [OF assms, of ps "([], [])"] show ?thesis
      unfolding preprocess_scraped_data_def
      by (auto split: sum.splits option.splits prod.splits)
  qed
next
  assume "\<exists>ps. pages_of data = Inr ps \<and> (\<forall>p\<in>set ps. \<exists>t. combined_text p = Inr t)"
  then obtain ps where ps: "pages_of data = Inr ps" and
    ok: "\<forall>p\<in>set ps. \<exists>t. combined_text p = Inr t" by blast
  from pages_loop_no_error [OF assms ok, of "([], [])"] obtain a m where
    loop: "pages_loop ps S ov ([], []) = Some (Inr (a, m))" by (cases) auto
  from ps obtain kvs where d: "data = JObj kvs"
    unfolding pages_of_def and_then_def dict_get_def by (cases data) (auto split: sum.splits)
  have "\<exists>src. dict_get data (py ''source_url'') JNull = Inr src"
    unfolding dict_get_def d by (cases "map_of kvs (py ''source_url'')") simp_all
  then show "\<exists>c. preprocess_scraped_data now data S ov = Some (Inr c)"
    using ps loop unfolding preprocess_scraped_data_def by auto
next
  fix c
  assume run: "preprocess_scraped_data now data S ov = Some (Inr c)"
  then obtain ps a m where ps: "pages_of data = Inr ps" and
    loop: "pages_loop ps S ov ([], []) = Some (Inr (a, m))" and
    c: "chunks c = a" "chunk_metadata c = m" "total_chunks c = int (length a)"
    unfolding preprocess_scraped_data_def
    by (auto split: sum.splits option.splits prod.splits)
  from pages_loop_groups [OF loop] obtain gs where
    gs: "list_all2 (\<lambda>p g. \<exists>url t.
                  dict_get p (py ''page_url'') JNull = Inr url \<and> combined_text p = Inr t \<and>
                  (if length (split_ws t) < 40 then Some []
                   else chunk_text (split_ws t) S ov) = Some (fst g) \<and>
                  snd g = map (\<lambda>i. \<lparr>page_url = url, chunk_index = int i\<rparr>)
                            [0 ..< length (fst g)]) ps gs" and
    a: "a = concat (map fst gs)" and m: "m = concat (map snd gs)"
    by auto
  have "\<forall>g\<in>set gs. length (snd g) = length (fst g)"
  proof
    fix g assume "g \<in> set gs"
    then obtain k where "k < length gs" "g = gs ! k" by (auto simp: in_set_conv_nth)
    with gs have "\<exists>url. snd g = map (\<lambda>i. \<lparr>page_url = url, chunk_index = int i\<rparr>)
                            [0 ..< length (fst g)]"
      by (auto simp: list_all2_conv_all_nth)
    then show "length (snd g) = length (fst g)" by auto
  qed
  then have "length (concat (map snd gs)) = length (concat (map fst gs))"
    by (induction gs) simp_all
  then show "length (chunks c) = length (chunk_metadata c)" using c a m by simp
  show "total_chunks c = int (length (chunks c))" using c by simp
  show "\<exists>ps gs. pages_of data = Inr ps \<and>
               list_all2 (\<lambda>p g. \<exists>url t.
                  dict_get p (py ''page_url'') JNull = Inr url \<and> combined_text p = Inr t \<and>
                  (if length (split_ws t) < 40 then Some []
                   else chunk_text (split_ws t) S ov) = Some (fst g) \<and>
                  snd g = map (\<lambda>i. \<lparr>page_url = url, chunk_index = int i\<rparr>)
                            [0 ..< length (fst g)]) ps gs \<and>
               chunks c = concat (map fst gs) \<and>
               chunk_metadata c = concat (map snd gs)"
    using ps gs a m c by blast
qed

lemma page_url_pricing: "dict_get (pricing_page url n) (py ''page_url'') JNull = Inr url"
  by (simp add: pricing_page_def dict_get_def)

lemma page_body_pricing:
  "page_body (pricing_page url n) S ov acc =
     (if Suc n < 40 then Some (Inr acc)
      else (case chunk_text (py ''Pricing'' # replicate n (py ''word'')) S ov of
              None \<Rightarrow> None
            | Some cs \<Rightarrow> Some (Inr (emit url cs acc))))"
  by (simp add: page_body_def page_url_pricing combined_text_pricing pricing_split)

lemma source_url_site: "dict_get (site_of pages) (py ''source_url'') JNull = Inr JNull"
  by (simp add: site_of_def dict_get_def py_eq_iff)

theorem corpus_parallel_witness:
  "(0::int) \<le> 10 \<and> (10::int) < 60 \<and>
   (\<exists>c. preprocess_scraped_data (py ''2024-01-01T00:00:00'')
          (site_of [pricing_page (JStr (py ''/a'')) 100, pricing_page (JStr (py ''/b'')) 3])
          60 10 = Some (Inr c) \<and>
        chunk_metadata c = [\<lparr>page_url = JStr (py ''/a''), chunk_index = 0\<rparr>,
                            \<lparr>page_url = JStr (py ''/a''), chunk_index = 1\<rparr>,
                            \<lparr>page_url = JStr (py ''/a''), chunk_index = 2\<rparr>] \<and>
        length (chunks c) = length (chunk_metadata c) \<and>
        total_chunks c = int (length (chunks c)))"
proof -
  let ?now = "py ''2024-01-01T00:00:00''"
  let ?data = "site_of [pricing_page (JStr (py ''/a'')) 100, pricing_page (JStr (py ''/b'')) 3]"
  let ?W = "py ''Pricing'' # replicate 100 (py ''word'')"
  have v: "(0::int) \<le> 10" "(10::int) < 60" by simp_all
  have n: "n_chunks 101 50 = 3" by (simp add: n_chunks_def)
  have u: "[0 ..< 3] = [0, 1, 2]" by (simp add: upt_rec)
  have ct: "\<exists>c0 c1 c2. chunk_text ?W 60 10 = Some [c0, c1, c2]"
    by (simp add: chunk_text_valid n u)
  then obtain c0 c1 c2 where ct3: "chunk_text ?W 60 10 = Some [c0, c1, c2]" by blast
  have "\<exists>c. preprocess_scraped_data ?now ?data 60 10 = Some (Inr c) \<and>
        chunk_metadata c = [\<lparr>page_url = JStr (py ''/a''), chunk_index = 0\<rparr>,
                            \<lparr>page_url = JStr (py ''/a''), chunk_index = 1\<rparr>,
                            \<lparr>page_url = JStr (py ''/a''), chunk_index = 2\<rparr>]"
    by (simp add: preprocess_scraped_data_def pages_of_site source_url_site page_body_pricing
          ct3 emit_eq u)
  then obtain c where run: "preprocess_scraped_data ?now ?data 60 10 = Some (Inr c)" and
    md: "chunk_metadata c = [\<lparr>page_url = JStr (py ''/a''), chunk_index = 0\<rparr>,
                            \<lparr>page_url = JStr (py ''/a''), chunk_index = 1\<rparr>,
                            \<lparr>page_url = JStr (py ''/a''), chunk_index = 2\<rparr>]"
    by blast
  from corpus_parallel [OF v, of ?now ?data] run
  have "length (chunks c) = length (chunk_metadata c) \<and> total_chunks c = int (length (chunks c))"
    by blast
  with v run md show ?thesis by blast
qed

text \<open>
  Claim C6. The page with title \<^verbatim>\<open>"Pricing"\<close>, no headings and the body
  \<^verbatim>\<open>"word "\<close> repeated 100 times, processed alone with \<open>S = 250\<close> and
  \<open>O = 40\<close>: its combined text is the 101 words \<^verbatim>\<open>Pricing word ... word\<close> joined by
  single spaces, it passes the filter, and the corpus holds exactly one chunk, which is
  that whole text, with chunk index 0.
\<close>

theorem pricing_example:
  "combined_text (pricing_page url 100) =
     Inr (join [32] (py ''Pricing'' # replicate 100 (py ''word''))) \<and>
   length (split_ws (join [32] (py ''Pricing'' # replicate 100 (py ''word'')))) = 101 \<and>
   preprocess_scraped_data now (site_of [pricing_page url 100]) 250 40 =
     Some (Inr \<lparr>source_url = JNull,
                processed_at = now @ py ''Z'',
                chunk_size = 250,
                overlap = 40,
                total_chunks = 1,
                chunks = [join [32] (py ''Pricing'' # replicate 100 (py ''word''))],
                chunk_metadata = [\<lparr>page_url = url, chunk_index = 0\<rparr>]\<rparr>)"
proof -
  let ?W = "py ''Pricing'' # replicate 100 (py ''word'')"
  have sp: "py '' '' = [32]" by (simp add: py_def)
  have ct: "chunk_text ?W 250 40 = Some [join [32] ?W]"
    using chunk_text_single [of 40 250 ?W] by (simp add: sp)
  have body: "page_body (pricing_page url 100) 250 40 ([], []) =
                Some (Inr ([join [32] ?W], [\<lparr>page_url = url, chunk_index = 0\<rparr>]))"
    unfolding page_body_pricing ct by (simp add: emit_eq)
  have run: "preprocess_scraped_data now (site_of [pricing_page url 100]) 250 40 =
     Some (Inr \<lparr>source_url = JNull, processed_at = now @ py ''Z'', chunk_size = 250,
                overlap = 40, total_chunks = 1, chunks = [join [32] ?W],
                chunk_metadata = [\<lparr>page_url = url, chunk_index = 0\<rparr>]\<rparr>)"
    by (simp add: preprocess_scraped_data_def pages_of_site source_url_site body)
  have len: "length (split_ws (join [32] ?W)) = 101" by (simp add: pricing_split)
  from combined_text_pricing [of url 100] len run show ?thesis by (intro conjI)
qed

lemma page_body_shift:
  assumes "page_body p S ov (a, m) = Some (Inr (a', m'))"
  shows "page_body p S ov (x @ a, y @ m) = Some (Inr (x @ a', y @ m'))"
proof -
  from page_body_Inr [OF assms] obtain url t cs where
    g: "dict_get p (py ''page_url'') JNull = Inr url" "combined_text p = Inr t"
       "(if length (split_ws t) < 40 then Some [] else chunk_text (split_ws t) S ov) = Some cs" and
    r: "a' = a @ cs" "m' = m @ map (\<lambda>i. \<lparr>page_url = url, chunk_index = int i\<rparr>) [0 ..< length cs]"
    by blast
  show ?thesis
  proof (cases "length (split_ws t) < 40")
    case True
    with g(3) have "cs = []" by simp
    with True g r show ?thesis by (simp add: page_body_def)
  next
    case False
    with g(3) have "chunk_text (split_ws t) S ov = Some cs" by simp
    with False g r show ?thesis by (simp add: page_body_def emit_eq)
  qed
qed

lemma pages_loop_shift:
  assumes "pages_loop ps S ov (a, m) = Some (Inr (a', m'))"
  shows "pages_loop ps S ov (x @ a, y @ m) = Some (Inr (x @ a', y @ m'))"
  using assms
proof (induction ps arbitrary: a m)
  case Nil
  then show ?case by simp
next
  case (Cons p ps)
  from Cons.prems obtain a1 m1 where
    body: "page_body p S ov (a, m) = Some (Inr (a1, m1))" and
    rest: "pages_loop ps S ov (a1, m1) = Some (Inr (a', m'))"
    by (auto split: option.splits sum.splits)
  from page_body_shift [OF body] Cons.IH [OF rest] show ?case by simp
qed

lemma pages_loop_from_empty:
  assumes "pages_loop ps S ov (a, m) = Some (Inr (a', m'))"
  shows "\<exists>A M. pages_loop ps S ov ([], []) = Some (Inr (A, M)) \<and> a' = a @ A \<and> m' = m @ M"
  using assms
proof (induction ps arbitrary: a m)
  case Nil
  then show ?case by simp
next
  case (Cons p ps)
  from Cons.prems obtain a1 m1 where
    body: "page_body p S ov (a, m) = Some (Inr (a1, m1))" and
    rest: "pages_loop ps S ov (a1, m1) = Some (Inr (a', m'))"
    by (auto split: option.splits sum.splits)
  from page_body_Inr [OF body] obtain url t cs where
    g: "dict_get p (py ''page_url'') JNull = Inr url" "combined_text p = Inr t"
       "(if length (split_ws t) < 40 then Some [] else chunk_text (split_ws t) S ov) = Some cs" and
    a1: "a1 = a @ cs" and
    m1: "m1 = m @ map (\<lambda>i. \<lparr>page_url = url, chunk_index = int i\<rparr>) [0 ..< length cs]"
    by blast
  let ?md = "map (\<lambda>i. \<lparr>page_url = url, chunk_index = int i\<rparr>) [0 ..< length cs]"
  have b0: "page_body p S ov ([], []) = Some (Inr (cs, ?md))"
  proof (cases "length (split_ws t) < 40")
    case True
    with g(3) have "cs = []" by simp
    with True g show ?thesis by (simp add: page_body_def)
  next
    case False
    with g(3) have "chunk_text (split_ws t) S ov = Some cs" by simp
    with False g show ?thesis by (simp add: page_body_def emit_eq)
  qed
  from Cons.IH [OF rest] obtain A M where
    l0: "pages_loop ps S ov ([], []) = Some (Inr (A, M))" and a': "a' = a1 @ A" and m': "m' = m1 @ M"
    by blast
  from pages_loop_shift [OF l0, of cs ?md]
  have "pages_loop ps S ov (cs, ?md) = Some (Inr (cs @ A, ?md @ M))" by simp
  with b0 have "pages_loop (p # ps) S ov ([], []) = Some (Inr (cs @ A, ?md @ M))" by simp
  moreover have "a' = a @ (cs @ A)" using a' a1 by simp
  moreover have "m' = m @ (?md @ M)" using m' m1 by simp
  ultimately show ?case by blast
qed

lemma pages_loop_append:
  "pages_loop (xs @ ys) S ov acc =
     (case pages_loop xs S ov acc of
        None \<Rightarrow> None
      | Some (Inl e) \<Rightarrow> Some (Inl e)
      | Some (Inr acc') \<Rightarrow> pages_loop ys S ov acc')"
  by (induction xs arbitrary: acc) (auto split: option.splits sum.splits)

lemma pages_loop_lengths:
  assumes "pages_loop ps S ov ([], []) = Some (Inr (A, M))"
  shows "length M = length A"
proof -
  from pages_loop_groups [OF assms] obtain gs where
    gs: "list_all2 (\<lambda>p g. \<exists>url t.
                  dict_get p (py ''page_url'') JNull = Inr url \<and> combined_text p = Inr t \<and>
                  (if length (split_ws t) < 40 then Some []
                   else chunk_text (split_ws t) S ov) = Some (fst g) \<and>
                  snd g = map (\<lambda>i. \<lparr>page_url = url, chunk_index = int i\<rparr>)
                            [0 ..< length (fst g)]) ps gs" and
    a: "A = concat (map fst gs)" and m: "M = concat (map snd gs)"
    by auto
  have "\<forall>g\<in>set gs. length (snd g) = length (fst g)"
  proof
    fix g assume "g \<in> set gs"
    then obtain k where "k < length gs" "g = gs ! k" by (auto simp: in_set_conv_nth)
    with gs have "\<exists>url. snd g = map (\<lambda>i. \<lparr>page_url = url, chunk_index = int i\<rparr>)
                            [0 ..< length (fst g)]"
      by (auto simp: list_all2_conv_all_nth)
    then show "length (snd g) = length (fst g)" by auto
  qed
  then have "length (concat (map snd gs)) = length (concat (map fst gs))"
    by (induction gs) simp_all
  then show ?thesis using a m by simp
qed


lemma page_body_skip:
  assumes "combined_text page = Inr t" and "length (split_ws t) < 40"
  shows "page_body page S ov acc = Some (Inr acc)"
proof -
  obtain kvs where p: "page = JObj kvs" using combined_text_dict [OF assms(1)] by blast
  have "\<exists>url. dict_get page (py ''page_url'') JNull = Inr url"
    unfolding dict_get_def p by (cases "map_of kvs (py ''page_url'')") simp_all
  then obtain url where "dict_get page (py ''page_url'') JNull = Inr url" by blast
  then show ?thesis using assms by (simp add: page_body_def)
qed

lemma preprocess_page_split:
  assumes pages: "pages_of data = Inr (pre @ page # post)"
    and comb: "combined_text page = Inr t"
    and run: "preprocess_scraped_data now data S ov = Some (Inr c)"
  shows "\<exists>A MA B MB url cs.
           pages_loop pre S ov ([], []) = Some (Inr (A, MA)) \<and>
           pages_loop post S ov ([], []) = Some (Inr (B, MB)) \<and>
           length MA = length A \<and>
           dict_get page (py ''page_url'') JNull = Inr url \<and>
           (if length (split_ws t) < 40 then Some [] else chunk_text (split_ws t) S ov) = Some cs \<and>
           chunks c = A @ cs @ B \<and>
           chunk_metadata c =
             MA @ map (\<lambda>i. \<lparr>page_url = url, chunk_index = int i\<rparr>) [0 ..< length cs] @ MB \<and>
           total_chunks c = int (length (chunks c))"
proof -
  from run pages obtain a m where
    loop: "pages_loop (pre @ page # post) S ov ([], []) = Some (Inr (a, m))" and
    c: "chunks c = a" "chunk_metadata c = m" "total_chunks c = int (length a)"
    unfolding preprocess_scraped_data_def
    by (auto split: sum.splits option.splits prod.splits)
  from loop obtain A MA where
    l1: "pages_loop pre S ov ([], []) = Some (Inr (A, MA))" and
    l2: "pages_loop (page # post) S ov (A, MA) = Some (Inr (a, m))"
    unfolding pages_loop_append by (auto split: option.splits sum.splits)
  from l2 obtain a1 m1 where
    body: "page_body page S ov (A, MA) = Some (Inr (a1, m1))" and
    l3: "pages_loop post S ov (a1, m1) = Some (Inr (a, m))"
    by (auto split: option.splits sum.splits)
  from page_body_Inr [OF body] comb obtain url cs where
    g: "dict_get page (py ''page_url'') JNull = Inr url"
       "(if length (split_ws t) < 40 then Some [] else chunk_text (split_ws t) S ov) = Some cs" and
    a1: "a1 = A @ cs" and
    m1: "m1 = MA @ map (\<lambda>i. \<lparr>page_url = url, chunk_index = int i\<rparr>) [0 ..< length cs]"
    by auto
  from pages_loop_from_empty [OF l3] obtain B MB where
    l4: "pages_loop post S ov ([], []) = Some (Inr (B, MB))" and
    a: "a = a1 @ B" and m: "m = m1 @ MB"
    by blast
  have len: "length MA = length A" by (rule pages_loop_lengths [OF l1])
  have ch: "chunks c = A @ cs @ B" using c a a1 by simp
  have md: "chunk_metadata c =
             MA @ map (\<lambda>i. \<lparr>page_url = url, chunk_index = int i\<rparr>) [0 ..< length cs] @ MB"
    using c m m1 by simp
  have tot: "total_chunks c = int (length (chunks c))" using c by simp
  from l1 l4 len g ch md tot show ?thesis by blast
qed

text \<open>
  Claim C5 says that a page whose combined text has exactly 40 words contributes at
  least one chunk, whatever the chunking parameters. \<^verbatim>\<open>preprocess_scraped_data\<close> does
  not check them: with \<open>S = 0\<close> and \<open>O = -1\<close> every window of \<^verbatim>\<open>chunk_text\<close> is empty,
  and the corpus of a single 40-word page has no chunk.
\<close>

theorem page_filter_counterexample:
  "combined_text (pricing_page (JStr (py ''/p'')) 39) =
     Inr (join [32] (py ''Pricing'' # replicate 39 (py ''word''))) \<and>
   length (split_ws (join [32] (py ''Pricing'' # replicate 39 (py ''word'')))) = 40 \<and>
   preprocess_scraped_data (py ''2024-01-01T00:00:00'')
     (site_of [pricing_page (JStr (py ''/p'')) 39]) 0 (- 1) =
     Some (Inr \<lparr>source_url = JNull,
                processed_at = py ''2024-01-01T00:00:00Z'',
                chunk_size = 0, overlap = - 1, total_chunks = 0,
                chunks = [], chunk_metadata = []\<rparr>)"
proof -
  have body: "page_body (pricing_page (JStr (py ''/p'')) 39) 0 (- 1) ([], []) = Some (Inr ([], []))"
    unfolding page_body_pricing chunk_text_empty_windows by (simp add: emit_eq)
  have run: "preprocess_scraped_data (py ''2024-01-01T00:00:00'')
     (site_of [pricing_page (JStr (py ''/p'')) 39]) 0 (- 1) =
     Some (Inr \<lparr>source_url = JNull,
                processed_at = py ''2024-01-01T00:00:00Z'',
                chunk_size = 0, overlap = - 1, total_chunks = 0,
                chunks = [], chunk_metadata = []\<rparr>)"
  proof -
    have z: "py ''2024-01-01T00:00:00'' @ py ''Z'' = py ''2024-01-01T00:00:00Z''"
      by (simp add: py_def)
    show ?thesis
      by (simp add: preprocess_scraped_data_def pages_of_site source_url_site body z)
  qed
  have len: "length (split_ws (join [32] (py ''Pricing'' # replicate 39 (py ''word'')))) = 40"
    by (simp add: pricing_split)
  from combined_text_pricing [of "JStr (py ''/p'')" 39] len run show ?thesis by (intro conjI)
qed

text \<open>
  Claim C5, amended. Let a page of the input page list have the combined text \<open>t\<close>: its
  title, its heading texts joined by spaces and its body, joined by spaces and cleaned.
  If \<open>t\<close> splits into fewer than 40 words, the page emits no chunk, for any chunking
  parameters: the aggregator gives the same outcome as on the input without that page,
  and a corpus it returns is the chunks of the pages before followed by the chunks of the
  pages after. If \<open>t\<close> splits into exactly 40 words and \<open>0 \<le> O < S\<close>, the page
  contributes at least one chunk to the corpus: a corpus is returned whenever the other
  pages have a combined text, and every corpus returned holds, between the chunks of the
  pages before and those of the pages after, the non-empty list of chunks of \<open>t\<close>, with
  this page's URL and the indices from 0 in the metadata.
\<close>

theorem page_filter:
  assumes pages: "pages_of data = Inr (pre @ page # post)"
    and comb: "combined_text page = Inr t"
  shows
    "(length (split_ws t) < 40 \<longrightarrow>
        (\<forall>data'. pages_of data' = Inr (pre @ post) \<and>
                dict_get data' (py ''source_url'') JNull = dict_get data (py ''source_url'') JNull \<longrightarrow>
           preprocess_scraped_data now data S ov = preprocess_scraped_data now data' S ov) \<and>
        (\<forall>c. preprocess_scraped_data now data S ov = Some (Inr c) \<longrightarrow>
           (\<exists>A MA B MB.
              pages_loop pre S ov ([], []) = Some (Inr (A, MA)) \<and>
              pages_loop post S ov ([], []) = Some (Inr (B, MB)) \<and>
              chunks c = A @ B \<and> chunk_metadata c = MA @ MB))) \<and>
     (length (split_ws t) = 40 \<and> 0 \<le> ov \<and> ov < S \<longrightarrow>
        ((\<forall>p\<in>set (pre @ post). \<exists>u. combined_text p = Inr u) \<longrightarrow>
           (\<exists>c. preprocess_scraped_data now data S ov = Some (Inr c))) \<and>
        (\<forall>c. preprocess_scraped_data now data S ov = Some (Inr c) \<longrightarrow>
           (\<exists>A MA B MB url cs.
              cs \<noteq> [] \<and> chunk_text (split_ws t) S ov = Some cs \<and>
              dict_get page (py ''page_url'') JNull = Inr url \<and>
              pages_loop pre S ov ([], []) = Some (Inr (A, MA)) \<and>
              pages_loop post S ov ([], []) = Some (Inr (B, MB)) \<and>
              length MA = length A \<and>
              chunks c = A @ cs @ B \<and>
              chunk_metadata c =
                MA @ map (\<lambda>i. \<lparr>page_url = url, chunk_index = int i\<rparr>) [0 ..< length cs] @ MB \<and>
              1 \<le> total_chunks c)))"
proof (intro conjI impI allI)
  fix data'
  assume few: "length (split_ws t) < 40"
  assume "pages_of data' = Inr (pre @ post) \<and>
          dict_get data' (py ''source_url'') JNull = dict_get data (py ''source_url'') JNull"
  then have p': "pages_of data' = Inr (pre @ post)" and
    src: "dict_get data' (py ''source_url'') JNull = dict_get data (py ''source_url'') JNull"
    by simp_all
  have "pages_loop (pre @ page # post) S ov ([], []) = pages_loop (pre @ post) S ov ([], [])"
    unfolding pages_loop_append
    by (auto simp: page_body_skip [OF comb few] split: option.splits sum.splits)
  then show "preprocess_scraped_data now data S ov = preprocess_scraped_data now data' S ov"
    unfolding preprocess_scraped_data_def pages p' src by simp
next
  fix c
  assume few: "length (split_ws t) < 40"
  assume run: "preprocess_scraped_data now data S ov = Some (Inr c)"
  from preprocess_page_split [OF pages comb run] few
  show "\<exists>A MA B MB.
          pages_loop pre S ov ([], []) = Some (Inr (A, MA)) \<and>
          pages_loop post S ov ([], []) = Some (Inr (B, MB)) \<and>
          chunks c = A @ B \<and> chunk_metadata c = MA @ MB"
    by fastforce
next
  assume v: "length (split_ws t) = 40 \<and> 0 \<le> ov \<and> ov < S"
  assume ok: "\<forall>p\<in>set (pre @ post). \<exists>u. combined_text p = Inr u"
  from v have valid: "0 \<le> ov" "ov < S" by simp_all
  from ok comb have all: "\<forall>p\<in>set (pre @ page # post). \<exists>u. combined_text p = Inr u" by auto
  from pages_loop_no_error [OF valid all, of "([], [])"] obtain a m where
    loop: "pages_loop (pre @ page # post) S ov ([], []) = Some (Inr (a, m))" by (cases) auto
  from pages obtain kvs where d: "data = JObj kvs"
    unfolding pages_of_def and_then_def dict_get_def by (cases data) (auto split: sum.splits)
  have "\<exists>src. dict_get data (py ''source_url'') JNull = Inr src"
    unfolding dict_get_def d by (cases "map_of kvs (py ''source_url'')") simp_all
  then show "\<exists>c. preprocess_scraped_data now data S ov = Some (Inr c)"
    using pages loop unfolding preprocess_scraped_data_def by auto
next
  fix c
  assume v: "length (split_ws t) = 40 \<and> 0 \<le> ov \<and> ov < S"
  assume run: "preprocess_scraped_data now data S ov = Some (Inr c)"
  from v have valid: "0 \<le> ov" "ov < S" and n: "length (split_ws t) = 40" by simp_all
  from n have ne: "split_ws t \<noteq> []" by auto
  from preprocess_page_split [OF pages comb run] n obtain A MA B MB url cs where
    f: "pages_loop pre S ov ([], []) = Some (Inr (A, MA))"
       "pages_loop post S ov ([], []) = Some (Inr (B, MB))"
       "length MA = length A"
       "dict_get page (py ''page_url'') JNull = Inr url"
       "chunk_text (split_ws t) S ov = Some cs"
       "chunks c = A @ cs @ B"
       "chunk_metadata c =
          MA @ map (\<lambda>i. \<lparr>page_url = url, chunk_index = int i\<rparr>) [0 ..< length cs] @ MB"
       "total_chunks c = int (length (chunks c))"
    by auto
  from chunk_text_nonempty [OF valid ne] f(5) have cs: "cs \<noteq> []" by auto
  then have "1 \<le> length (chunks c)" unfolding f(6) by (cases cs) simp_all
  then have tot: "1 \<le> total_chunks c" unfolding f(8) by simp
  from cs f(5) f(4) f(1) f(2) f(3) f(6) f(7) tot
  show "\<exists>A MA B MB url cs.
              cs \<noteq> [] \<and> chunk_text (split_ws t) S ov = Some cs \<and>
              dict_get page (py ''page_url'') JNull = Inr url \<and>
              pages_loop pre S ov ([], []) = Some (Inr (A, MA)) \<and>
              pages_loop post S ov ([], []) = Some (Inr (B, MB)) \<and>
              length MA = length A \<and>
              chunks c = A @ cs @ B \<and>
              chunk_metadata c =
                MA @ map (\<lambda>i. \<lparr>page_url = url, chunk_index = int i\<rparr>) [0 ..< length cs] @ MB \<and>
              1 \<le> total_chunks c"
    by blast
qed


theorem page_filter_witness:
  "pages_of (site_of [pricing_page (JStr (py ''/a'')) 38, pricing_page (JStr (py ''/p'')) 39]) =
     Inr ([pricing_page (JStr (py ''/a'')) 38] @ pricing_page (JStr (py ''/p'')) 39 # []) \<and>
   combined_text (pricing_page (JStr (py ''/p'')) 39) =
     Inr (join [32] (py ''Pricing'' # replicate 39 (py ''word''))) \<and>
   length (split_ws (join [32] (py ''Pricing'' # replicate 39 (py ''word'')))) = 40 \<and>
   (0::int) \<le> 40 \<and> (40::int) < 250 \<and>
   (\<exists>c. preprocess_scraped_data (py ''2024-01-01T00:00:00'')
          (site_of [pricing_page (JStr (py ''/a'')) 38, pricing_page (JStr (py ''/p'')) 39])
          250 40 = Some (Inr c) \<and>
        chunks c = [join [32] (py ''Pricing'' # replicate 39 (py ''word''))] \<and>
        1 \<le> total_chunks c) \<and>
   pages_of (site_of [pricing_page (JStr (py ''/a'')) 38, pricing_page (JStr (py ''/p'')) 39]) =
     Inr ([] @ pricing_page (JStr (py ''/a'')) 38 # [pricing_page (JStr (py ''/p'')) 39]) \<and>
   combined_text (pricing_page (JStr (py ''/a'')) 38) =
     Inr (join [32] (py ''Pricing'' # replicate 38 (py ''word''))) \<and>
   length (split_ws (join [32] (py ''Pricing'' # replicate 38 (py ''word'')))) < 40 \<and>
   pages_of (site_of [pricing_page (JStr (py ''/p'')) 39]) =
     Inr ([] @ [pricing_page (JStr (py ''/p'')) 39]) \<and>
   preprocess_scraped_data (py ''2024-01-01T00:00:00'')
     (site_of [pricing_page (JStr (py ''/a'')) 38, pricing_page (JStr (py ''/p'')) 39]) 250 40 =
   preprocess_scraped_data (py ''2024-01-01T00:00:00'')
     (site_of [pricing_page (JStr (py ''/p'')) 39]) 250 40"
proof -
  let ?now = "py ''2024-01-01T00:00:00''"
  let ?pa = "pricing_page (JStr (py ''/a'')) 38"
  let ?pp = "pricing_page (JStr (py ''/p'')) 39"
  let ?data = "site_of [?pa, ?pp]"
  let ?data' = "site_of [?pp]"
  let ?T40 = "join [32] (py ''Pricing'' # replicate 39 (py ''word''))"
  let ?T39 = "join [32] (py ''Pricing'' # replicate 38 (py ''word''))"
  have p2: "pages_of ?data = Inr ([?pa] @ ?pp # [])" by (simp add: pages_of_site)
  have p1: "pages_of ?data = Inr ([] @ ?pa # [?pp])" by (simp add: pages_of_site)
  have p': "pages_of ?data' = Inr ([] @ [?pp])" by (simp add: pages_of_site)
  have t40: "combined_text ?pp = Inr ?T40" by (rule combined_text_pricing)
  have t39: "combined_text ?pa = Inr ?T39" by (rule combined_text_pricing)
  have l40: "length (split_ws ?T40) = 40" by (simp add: pricing_split)
  have l39: "length (split_ws ?T39) < 40" by (simp add: pricing_split)
  have v: "(0::int) \<le> 40" "(40::int) < 250" by simp_all
  have src: "dict_get ?data' (py ''source_url'') JNull = dict_get ?data (py ''source_url'') JNull"
    by (simp add: source_url_site)
  have ok: "\<forall>p\<in>set ([?pa] @ []). \<exists>u. combined_text p = Inr u"
    using t39 by simp
  have sp: "py '' '' = [32]" by (simp add: py_def)
  have ct: "chunk_text (py ''Pricing'' # replicate 39 (py ''word'')) 250 40 = Some [?T40]"
    using chunk_text_single [of 40 250 "py ''Pricing'' # replicate 39 (py ''word'')"]
    by (simp add: sp)
  have run: "\<exists>c. preprocess_scraped_data ?now ?data 250 40 = Some (Inr c) \<and> chunks c = [?T40]"
    by (simp add: preprocess_scraped_data_def pages_of_site source_url_site page_body_pricing
          ct emit_eq)
  then obtain c where c: "preprocess_scraped_data ?now ?data 250 40 = Some (Inr c)" and
    ch: "chunks c = [?T40]" by blast
  from page_filter [OF p2 t40, of ?now 250 40] l40 v c
  have tot: "1 \<le> total_chunks c" by blast
  from c ch tot have keep: "\<exists>c. preprocess_scraped_data ?now ?data 250 40 = Some (Inr c) \<and>
        chunks c = [?T40] \<and> 1 \<le> total_chunks c" by blast
  from page_filter [OF p1 t39, of ?now 250 40] l39 p' src
  have skip: "preprocess_scraped_data ?now ?data 250 40 = preprocess_scraped_data ?now ?data' 250 40"
    by (simp only: append_Nil)
  from p2 t40 l40 v keep p1 t39 l39 p' skip show ?thesis by (intro conjI)
qed

text \<open>
  Claim C9 says that an input without the expected shape, for example one in which the
  key \<^verbatim>\<open>site_pages\<close> or \<^verbatim>\<open>pages\<close> is missing, fails with a data-format error.
  Both lookups have a default, \<^verbatim>\<open>{}\<close> and \<^verbatim>\<open>[]\<close>: the empty dictionary and a
  dictionary whose \<^verbatim>\<open>site_pages\<close> has no \<^verbatim>\<open>pages\<close> give an empty corpus.
\<close>

theorem missing_keys_counterexample:
  "preprocess_scraped_data (py ''2024-01-01T00:00:00'') (JObj []) 250 40 =
     Some (Inr \<lparr>source_url = JNull,
                processed_at = py ''2024-01-01T00:00:00Z'',
                chunk_size = 250, overlap = 40, total_chunks = 0,
                chunks = [], chunk_metadata = []\<rparr>) \<and>
   preprocess_scraped_data (py ''2024-01-01T00:00:00'') (JObj [(py ''site_pages'', JObj [])]) 250 40 =
     Some (Inr \<lparr>source_url = JNull,
                processed_at = py ''2024-01-01T00:00:00Z'',
                chunk_size = 250, overlap = 40, total_chunks = 0,
                chunks = [], chunk_metadata = []\<rparr>)"
  by (simp add: preprocess_scraped_data_def pages_of_def dict_get_def and_then_def py_iter_def
        py_def)

text \<open>
  Claim C9, amended. An input dictionary in which the key \<^verbatim>\<open>site_pages\<close> is missing,
  or in which \<^verbatim>\<open>site_pages\<close> is a dictionary without the key \<^verbatim>\<open>pages\<close>, is
  accepted: the page list is empty and an empty corpus is returned. An input that is
  not a dictionary, or whose \<^verbatim>\<open>site_pages\<close> is present and not a dictionary, raises
  \<^verbatim>\<open>AttributeError\<close>; a \<^verbatim>\<open>pages\<close> value that is null, a boolean or a number
  raises \<^verbatim>\<open>TypeError\<close>.
\<close>

theorem missing_keys_tolerated:
  "(map_of kvs (py ''site_pages'') = None \<or>
    (\<exists>site. map_of kvs (py ''site_pages'') = Some (JObj site) \<and> map_of site (py ''pages'') = None)
    \<longrightarrow>
      preprocess_scraped_data now (JObj kvs) S ov =
        Some (Inr \<lparr>source_url = (case map_of kvs (py ''source_url'') of None \<Rightarrow> JNull | Some v \<Rightarrow> v),
                   processed_at = now @ py ''Z'',
                   chunk_size = S, overlap = ov, total_chunks = 0,
                   chunks = [], chunk_metadata = []\<rparr>)) \<and>
   ((\<forall>d. data \<noteq> JObj d) \<longrightarrow>
      preprocess_scraped_data now data S ov = Some (Inl AttributeError)) \<and>
   (map_of kvs (py ''site_pages'') = Some v \<and> (\<forall>site. v \<noteq> JObj site) \<longrightarrow>
      preprocess_scraped_data now (JObj kvs) S ov = Some (Inl AttributeError)) \<and>
   (map_of kvs (py ''site_pages'') = Some (JObj site) \<and> map_of site (py ''pages'') = Some v \<and>
    (v = JNull \<or> (\<exists>b. v = JBool b) \<or> (\<exists>n. v = JNum n)) \<longrightarrow>
      preprocess_scraped_data now (JObj kvs) S ov = Some (Inl TypeError))"
proof (intro conjI impI)
  assume "map_of kvs (py ''site_pages'') = None \<or>
    (\<exists>site. map_of kvs (py ''site_pages'') = Some (JObj site) \<and> map_of site (py ''pages'') = None)"
  then have "pages_of (JObj kvs) = Inr []"
    by (auto simp: pages_of_def dict_get_def and_then_def py_iter_def)
  then show "preprocess_scraped_data now (JObj kvs) S ov =
        Some (Inr \<lparr>source_url = (case map_of kvs (py ''source_url'') of None \<Rightarrow> JNull | Some v \<Rightarrow> v),
                   processed_at = now @ py ''Z'',
                   chunk_size = S, overlap = ov, total_chunks = 0,
                   chunks = [], chunk_metadata = []\<rparr>)"
    by (simp add: preprocess_scraped_data_def dict_get_def split: option.splits)
next
  assume "\<forall>d. data \<noteq> JObj d"
  then have "pages_of data = Inl AttributeError"
    by (cases data) (simp_all add: pages_of_def dict_get_def and_then_def)
  then show "preprocess_scraped_data now data S ov = Some (Inl AttributeError)"
    by (simp add: preprocess_scraped_data_def)
next
  assume "map_of kvs (py ''site_pages'') = Some v \<and> (\<forall>site. v \<noteq> JObj site)"
  then have "pages_of (JObj kvs) = Inl AttributeError"
    by (cases v) (simp_all add: pages_of_def dict_get_def and_then_def)
  then show "preprocess_scraped_data now (JObj kvs) S ov = Some (Inl AttributeError)"
    by (simp add: preprocess_scraped_data_def)
next
  assume "map_of kvs (py ''site_pages'') = Some (JObj site) \<and> map_of site (py ''pages'') = Some v \<and>
    (v = JNull \<or> (\<exists>b. v = JBool b) \<or> (\<exists>n. v = JNum n))"
  then have "pages_of (JObj kvs) = Inl TypeError"
    by (auto simp: pages_of_def dict_get_def and_then_def py_iter_def)
  then show "preprocess_scraped_data now (JObj kvs) S ov = Some (Inl TypeError)"
    by (simp add: preprocess_scraped_data_def)
qed

theorem missing_keys_tolerated_witness:
  "map_of [(py ''source_url'', JStr (py ''https://example.com''))] (py ''site_pages'') = None \<and>
   preprocess_scraped_data (py ''2024-01-01T00:00:00'')
     (JObj [(py ''source_url'', JStr (py ''https://example.com''))]) 250 40 =
     Some (Inr \<lparr>source_url = JStr (py ''https://example.com''),
                processed_at = py ''2024-01-01T00:00:00'' @ py ''Z'',
                chunk_size = 250, overlap = 40, total_chunks = 0,
                chunks = [], chunk_metadata = []\<rparr>) \<and>
   (\<forall>d. JArr [] \<noteq> JObj d) \<and>
   preprocess_scraped_data (py ''2024-01-01T00:00:00'') (JArr []) 250 40 = Some (Inl AttributeError) \<and>
   map_of [(py ''site_pages'', JNull)] (py ''site_pages'') = Some JNull \<and>
   (\<forall>site. JNull \<noteq> JObj site) \<and>
   preprocess_scraped_data (py ''2024-01-01T00:00:00'') (JObj [(py ''site_pages'', JNull)]) 250 40 =
     Some (Inl AttributeError) \<and>
   map_of [(py ''site_pages'', JObj [(py ''pages'', JNum 7)])] (py ''site_pages'') =
     Some (JObj [(py ''pages'', JNum 7)]) \<and>
   map_of [(py ''pages'', JNum 7)] (py ''pages'') = Some (JNum 7) \<and>
   preprocess_scraped_data (py ''2024-01-01T00:00:00'')
     (JObj [(py ''site_pages'', JObj [(py ''pages'', JNum 7)])]) 250 40 = Some (Inl TypeError)"
proof -
  let ?now = "py ''2024-01-01T00:00:00''"
  have a: "map_of [(py ''source_url'', JStr (py ''https://example.com''))] (py ''site_pages'') = None"
    by (simp add: py_eq_iff)
  have b: "\<forall>d. JArr [] \<noteq> JObj d" by simp
  have c: "map_of [(py ''site_pages'', JNull)] (py ''site_pages'') = Some JNull"
          "\<forall>site. JNull \<noteq> JObj site"
    by simp_all
  have d: "map_of [(py ''site_pages'', JObj [(py ''pages'', JNum 7)])] (py ''site_pages'') =
             Some (JObj [(py ''pages'', JNum 7)])"
          "map_of [(py ''pages'', JNum 7)] (py ''pages'') = Some (JNum 7)"
    by simp_all
  note t1 = missing_keys_tolerated
    [of "[(py ''source_url'', JStr (py ''https://example.com''))]" ?now 250 40 "JArr []" JNull "[]"]
  note t3 = missing_keys_tolerated
    [of "[(py ''site_pages'', JNull)]" ?now 250 40 "JArr []" JNull "[]"]
  note t4 = missing_keys_tolerated
    [of "[(py ''site_pages'', JObj [(py ''pages'', JNum 7)])]" ?now 250 40 "JArr []" "JNum 7"
        "[(py ''pages'', JNum 7)]"]
  have r1: "preprocess_scraped_data ?now
     (JObj [(py ''source_url'', JStr (py ''https://example.com''))]) 250 40 =
     Some (Inr \<lparr>source_url = JStr (py ''https://example.com''),
                processed_at = ?now @ py ''Z'',
                chunk_size = 250, overlap = 40, total_chunks = 0,
                chunks = [], chunk_metadata = []\<rparr>)"
    using t1 a by simp
  have r2: "preprocess_scraped_data ?now (JArr []) 250 40 = Some (Inl AttributeError)"
    using t1 b by blast
  have r3: "preprocess_scraped_data ?now (JObj [(py ''site_pages'', JNull)]) 250 40 =
              Some (Inl AttributeError)"
    using t3 c by blast
  have r4: "preprocess_scraped_data ?now
     (JObj [(py ''site_pages'', JObj [(py ''pages'', JNum 7)])]) 250 40 = Some (Inl TypeError)"
    using t4 d by blast
  from a r1 b r2 c r3 d r4 show ?thesis by (intro conjI)
qed

end
